theory Spec2Isabelle
  imports Main
begin

section \<open>The object store\<close>

text \<open>
  \<^verbatim>\<open>BalancedBSTSet.py\<close> keeps its keys in node objects that point at each other
  (\<^verbatim>\<open>left\<close>, \<^verbatim>\<open>right\<close>, \<^verbatim>\<open>parent\<close>) and are mutated in place. A node
  object is a reference into an arena of node records: the arena only grows (Python keeps
  an object alive while it is referenced), a reference is the index the object got when
  it was created, and \<open>None\<close> is \<open>None\<close>.
\<close>

type_synonym ref = nat

record 'a node =
  data :: 'a
  left :: "ref option"
  right :: "ref option"
  parent :: "ref option"
  counter :: int

text \<open>
  The tree object (\<^verbatim>\<open>BalancedBSTSet.__init__\<close>, lines 64-82) with the arena of the
  nodes it created. \<open>size_t\<close>, \<open>top_t\<close> and \<open>bottom_t\<close> are the attributes
  \<^verbatim>\<open>__size\<close>, \<^verbatim>\<open>top\<close> and \<^verbatim>\<open>bottom\<close>.
\<close>

record 'a bstset =
  heap :: "'a node list"
  root :: "ref option"
  size_t :: int
  self_balancing :: bool
  top_t :: int
  bottom_t :: int

text \<open>The exceptions the code can raise; a result is \<open>None\<close> when the call never returns.\<close>

datatype error = AttributeError | IndexError | StopIteration | TypeError

type_synonym 'a res = "(error + 'a) option"

definition bindR :: "'a res \<Rightarrow> ('a \<Rightarrow> 'b res) \<Rightarrow> 'b res" where
  "bindR m f = Option.bind m (\<lambda>r. case r of Inl e \<Rightarrow> Some (Inl e) | Inr x \<Rightarrow> f x)"

section \<open>Parts of \<^verbatim>\<open>BSTSet.py\<close>, which is not among the sources\<close>

text \<open>
  Modelled from the spec: the constructor of \<^verbatim>\<open>BSTSet.Node\<close> is missing. A node is
  created "with correct parent link", without children; \<^verbatim>\<open>BalancedBSTSet.Node.__init__\<close>
  (lines 50-54) sets its counter to 0 first.
\<close>

definition Node_init :: "'a \<Rightarrow> ref option \<Rightarrow> 'a node" where
  "Node_init key par = \<lparr>data = key, left = None, right = None, parent = par, counter = 0\<rparr>"

text \<open>
  Modelled from the spec: \<^verbatim>\<open>BSTSet.Node.compareTo\<close> is missing. "Equality and ordering
  [are] defined by a three-way comparison" of the node's key with the given key: positive
  when the node's key is the greater one.
\<close>

definition compareTo :: "('a::linorder) node \<Rightarrow> 'a \<Rightarrow> int" where
  "compareTo n key = (if key < data n then 1 else if data n < key then - 1 else 0)"

text \<open>\<^verbatim>\<open>getSmallestValue\<close> (lines 472-476): the leftmost node below \<open>n\<close>.\<close>

partial_function (option) getSmallestValue :: "'a node list \<Rightarrow> ref option \<Rightarrow> ref option option" where
  "getSmallestValue h n =
     (case n of
        None \<Rightarrow> Some None
      | Some p \<Rightarrow>
          (case left (h ! p) of
             None \<Rightarrow> Some (Some p)
           | Some l \<Rightarrow> getSmallestValue h (Some l)))"

text \<open>
  Modelled from the spec: \<^verbatim>\<open>BSTSet.successor\<close> is missing. "If a right child exists,
  descend to its minimum; otherwise climb parent links until finding an ancestor reached
  from its left side."
\<close>

partial_function (option) climb :: "'a node list \<Rightarrow> ref \<Rightarrow> ref option option" where
  "climb h n =
     (case parent (h ! n) of
        None \<Rightarrow> Some None
      | Some p \<Rightarrow> if left (h ! p) = Some n then Some (Some p) else climb h p)"

definition successor :: "'a node list \<Rightarrow> ref \<Rightarrow> ref option option" where
  "successor h n =
     (case right (h ! n) of
        Some r \<Rightarrow> getSmallestValue h (Some r)
      | None \<Rightarrow> climb h n)"

section \<open>The tree\<close>

text \<open>
  \<^verbatim>\<open>__init__\<close> (lines 64-82): \<^verbatim>\<open>bottom == 0\<close> selects the default ratio 2/3.
\<close>

definition init :: "bool \<Rightarrow> int \<Rightarrow> int \<Rightarrow> 'a bstset" where
  "init isSelfBalancing tp bt =
     \<lparr>heap = [], root = None, size_t = 0, self_balancing = isSelfBalancing,
      top_t = (if bt = 0 then 2 else tp), bottom_t = (if bt = 0 then 3 else bt)\<rparr>"

definition isEmpty :: "'a bstset \<Rightarrow> bool" where
  "isEmpty t = (root t = None)"

definition len :: "'a bstset \<Rightarrow> int" where
  "len t = size_t t"

text \<open>\<^verbatim>\<open>__inOrder\<close> (lines 102-110): appends the nodes below \<open>nd\<close> to \<open>arr\<close>.\<close>

partial_function (option) inOrder :: "'a node list \<Rightarrow> ref option \<Rightarrow> ref list \<Rightarrow> ref list option" where
  "inOrder h nd arr =
     (case nd of
        None \<Rightarrow> Some arr
      | Some p \<Rightarrow>
          Option.bind (inOrder h (left (h ! p)) arr) (\<lambda>arr1.
            inOrder h (right (h ! p)) (arr1 @ [p])))"

text \<open>\<^verbatim>\<open>count_node\<close> (lines 456-464): recomputes every counter below \<open>cur\<close>.\<close>

partial_function (option) count_node :: "'a node list \<Rightarrow> ref option \<Rightarrow> ('a node list \<times> int) option" where
  "count_node h cur =
     (case cur of
        None \<Rightarrow> Some (h, 0)
      | Some c \<Rightarrow>
          Option.bind (count_node h (left (h ! c))) (\<lambda>(h1, a).
          Option.bind (count_node h1 (right (h1 ! c))) (\<lambda>(h2, b).
            Some (h2[c := (h2 ! c)\<lparr>counter := a + b + 1\<rparr>], a + b + 1))))"

text \<open>\<^verbatim>\<open>self.count_node(self.__root)\<close>, as every mutation calls it.\<close>

definition count_root :: "'a bstset \<Rightarrow> 'a bstset option" where
  "count_root t = Option.bind (count_node (heap t) (root t)) (\<lambda>(h, c). Some (t\<lparr>heap := h\<rparr>))"

text \<open>\<^verbatim>\<open>is_balanced\<close> (lines 423-446).\<close>

definition is_balanced :: "'a bstset \<Rightarrow> ref option \<Rightarrow> bool" where
  "is_balanced t nd =
     (case nd of
        None \<Rightarrow> True
      | Some p \<Rightarrow>
          (let sz = counter (heap t ! p);
               l = (case left (heap t ! p) of None \<Rightarrow> 0 | Some c \<Rightarrow> counter (heap t ! c));
               r = (case right (heap t ! p) of None \<Rightarrow> 0 | Some c \<Rightarrow> counter (heap t ! c))
           in if l * bottom_t t > sz * top_t t then False
              else if r * bottom_t t > sz * top_t t then False
              else True))"

text \<open>
  \<^verbatim>\<open>find_unbalanced\<close> (lines 409-414). \<^verbatim>\<open>n.parent\<close> on \<open>None\<close> raises
  \<^verbatim>\<open>AttributeError\<close>.
\<close>

partial_function (option) find_unbalanced :: "'a bstset \<Rightarrow> ref option \<Rightarrow> (ref option) res" where
  "find_unbalanced t n =
     (if is_balanced t n then
        (if n = root t then Some (Inr None)
         else (case n of
                 None \<Rightarrow> Some (Inl AttributeError)
               | Some p \<Rightarrow> find_unbalanced t (parent (heap t ! p))))
      else Some (Inr n))"

text \<open>
  \<^verbatim>\<open>rebuild_tree\<close> (lines 363-373), the function nested in \<^verbatim>\<open>rebalance\<close>.
  \<^verbatim>\<open>int(math.ceil(start + (end - start) / 2.0))\<close> is
  \<open>start + (end - start + 1) div 2\<close> on the integers (an index of a list in memory is
  far below \<open>2^53\<close>, where the floating-point division is exact).
\<close>

function rebuild_tree ::
  "'a node list \<Rightarrow> ref list \<Rightarrow> int \<Rightarrow> int \<Rightarrow> ref option \<Rightarrow> 'a node list \<times> ref option" where
  "rebuild_tree h nodes start endi par =
     (if start > endi then (h, None)
      else
        (let mid = start + (endi - start + 1) div 2;
             nd = nodes ! nat mid;
             h1 = h[nd := (h ! nd)\<lparr>parent := par\<rparr>];
             (h2, l) = rebuild_tree h1 nodes start (mid - 1) (Some nd);
             h3 = h2[nd := (h2 ! nd)\<lparr>left := l\<rparr>];
             (h4, r) = rebuild_tree h3 nodes (mid + 1) endi (Some nd);
             h5 = h4[nd := (h4 ! nd)\<lparr>right := r\<rparr>]
         in (h5, Some nd)))"
  by pat_completeness auto
termination
  by (relation "measure (\<lambda>(h, nodes, start, endi, par). nat (endi - start + 1))") auto

text \<open>\<^verbatim>\<open>rebalance\<close> (lines 353-399).\<close>

definition rebalance :: "'a bstset \<Rightarrow> ref option \<Rightarrow> 'a bstset res" where
  "rebalance t bstNode =
     (case bstNode of
        None \<Rightarrow> Some (Inr t)
      | Some b \<Rightarrow>
          (let node_parent = parent (heap t ! b) in
           Option.bind (inOrder (heap t) (Some b) []) (\<lambda>node_list.
             (let (h1, subtree_root) =
                    rebuild_tree (heap t) node_list 0 (int (length node_list) - 1) (parent (heap t ! b))
              in (case subtree_root of
                    None \<Rightarrow> Some (Inl AttributeError)
                  | Some s \<Rightarrow>
                      bindR
                        (if parent (h1 ! s) = None then Some (Inr (t\<lparr>heap := h1, root := Some s\<rparr>))
                         else (case node_parent of
                                 None \<Rightarrow> Some (Inl AttributeError)
                               | Some np \<Rightarrow>
                                   if left (h1 ! np) = Some b
                                   then Some (Inr (t\<lparr>heap := h1[np := (h1 ! np)\<lparr>left := Some s\<rparr>]\<rparr>))
                                   else Some (Inr (t\<lparr>heap := h1[np := (h1 ! np)\<lparr>right := Some s\<rparr>]\<rparr>))))
                        (\<lambda>t1. Option.bind (count_root t1) (\<lambda>t2. Some (Inr t2))))))))"

text \<open>
  The four lines that follow the recount in \<^verbatim>\<open>add\<close> (lines 143-146 and 159-162),
  in \<^verbatim>\<open>remove\<close> (lines 183-186) and in the iterator's \<^verbatim>\<open>remove\<close> (lines 549-552):
  in a self-balancing tree, rebuild the nearest unbalanced node at or above \<open>start\<close>.
\<close>

definition rebalance_from :: "'a bstset \<Rightarrow> ref option \<Rightarrow> 'a bstset res" where
  "rebalance_from t start =
     (if self_balancing t then
        bindR (find_unbalanced t start) (\<lambda>unbalanced_node.
          (case unbalanced_node of
             None \<Rightarrow> Some (Inr t)
           | Some u \<Rightarrow> rebalance t (Some u)))
      else Some (Inr t))"

text \<open>
  \<^verbatim>\<open>add\<close> (lines 119-163). \<open>add_leaf\<close> is what both branches of the loop do once
  the free slot is found: create the node, link it, count, rebalance.
\<close>

definition add_leaf :: "'a bstset \<Rightarrow> ref \<Rightarrow> bool \<Rightarrow> 'a \<Rightarrow> ('a bstset \<times> bool) res" where
  "add_leaf t cur is_left key =
     (let n = length (heap t);
          h1 = heap t @ [Node_init key (Some cur)];
          h2 = (if is_left then h1[cur := (h1 ! cur)\<lparr>left := Some n\<rparr>]
                else h1[cur := (h1 ! cur)\<lparr>right := Some n\<rparr>]);
          t1 = t\<lparr>heap := h2, size_t := size_t t + 1\<rparr>
      in Option.bind (count_root t1) (\<lambda>t2.
           bindR (rebalance_from t2 (Some cur)) (\<lambda>t3. Some (Inr (t3, True)))))"

partial_function (option) add_loop :: "('a::linorder) bstset \<Rightarrow> ref \<Rightarrow> 'a \<Rightarrow> ('a bstset \<times> bool) res" where
  "add_loop t cur key =
     (let comp = compareTo (heap t ! cur) key in
      if comp = 0 then Some (Inr (t, False))
      else if comp > 0 then
        (case left (heap t ! cur) of
           Some l \<Rightarrow> add_loop t l key
         | None \<Rightarrow> add_leaf t cur True key)
      else
        (case right (heap t ! cur) of
           Some r \<Rightarrow> add_loop t r key
         | None \<Rightarrow> add_leaf t cur False key))"

definition add :: "('a::linorder) bstset \<Rightarrow> 'a \<Rightarrow> ('a bstset \<times> bool) res" where
  "add t key =
     (case root t of
        None \<Rightarrow>
          (let n = length (heap t);
               t1 = t\<lparr>heap := heap t @ [Node_init key None], root := Some n, size_t := size_t t + 1\<rparr>
           in Option.bind (count_root t1) (\<lambda>t2. Some (Inr (t2, True))))
      | Some r \<Rightarrow> add_loop t r key)"

text \<open>\<^verbatim>\<open>findEntry\<close> (lines 196-206).\<close>

partial_function (option) findEntry_loop :: "('a::linorder) node list \<Rightarrow> ref option \<Rightarrow> 'a \<Rightarrow> ref option option" where
  "findEntry_loop h cur key =
     (case cur of
        None \<Rightarrow> Some None
      | Some c \<Rightarrow>
          (let comp = compareTo (h ! c) key in
           if comp = 0 then Some (Some c)
           else if comp > 0 then findEntry_loop h (left (h ! c)) key
           else findEntry_loop h (right (h ! c)) key))"

definition findEntry :: "('a::linorder) bstset \<Rightarrow> 'a \<Rightarrow> ref option option" where
  "findEntry t key = findEntry_loop (heap t) (root t) key"

text \<open>
  \<^verbatim>\<open>unlinkNode\<close> (lines 215-246). \<open>unlink_at\<close> is its second half (lines 226-246), on
  the node that has at most one child. \<^verbatim>\<open>startNode\<close> (lines 219 and 224) is assigned and
  never read.
\<close>

definition unlink_at :: "'a bstset \<Rightarrow> ref \<Rightarrow> 'a bstset" where
  "unlink_at t n =
     (let h = heap t;
          replacement = (case left (h ! n) of Some l \<Rightarrow> Some l | None \<Rightarrow> right (h ! n));
          t1 = (case parent (h ! n) of
                  None \<Rightarrow> t\<lparr>root := replacement\<rparr>
                | Some p \<Rightarrow>
                    if Some n = left (h ! p)
                    then t\<lparr>heap := h[p := (h ! p)\<lparr>left := replacement\<rparr>]\<rparr>
                    else t\<lparr>heap := h[p := (h ! p)\<lparr>right := replacement\<rparr>]\<rparr>);
          h1 = heap t1;
          t2 = (case replacement of
                  None \<Rightarrow> t1
                | Some rp \<Rightarrow> t1\<lparr>heap := h1[rp := (h1 ! rp)\<lparr>parent := parent (h1 ! n)\<rparr>]\<rparr>)
      in t2\<lparr>size_t := size_t t2 - 1\<rparr>)"

definition unlinkNode :: "'a bstset \<Rightarrow> ref \<Rightarrow> 'a bstset res" where
  "unlinkNode t n =
     (let h = heap t in
      if left (h ! n) \<noteq> None \<and> right (h ! n) \<noteq> None then
        Option.bind (successor h n) (\<lambda>so.
          (case so of
             None \<Rightarrow> Some (Inl AttributeError)
           | Some s \<Rightarrow> Some (Inr (unlink_at (t\<lparr>heap := h[n := (h ! n)\<lparr>data := data (h ! s)\<rparr>]\<rparr>) s))))
      else Some (Inr (unlink_at t n)))"

text \<open>\<^verbatim>\<open>remove\<close> (lines 172-188).\<close>

definition remove :: "('a::linorder) bstset \<Rightarrow> 'a \<Rightarrow> ('a bstset \<times> bool) res" where
  "remove t obj =
     Option.bind (findEntry t obj) (\<lambda>no.
       (case no of
          None \<Rightarrow> Some (Inr (t, False))
        | Some n \<Rightarrow>
            (let par = parent (heap t ! n) in
             bindR (unlinkNode t n) (\<lambda>t1.
               Option.bind (count_root t1) (\<lambda>t2.
                 bindR (rebalance_from t2 par) (\<lambda>t3. Some (Inr (t3, True))))))))"

text \<open>\<^verbatim>\<open>height\<close> and \<^verbatim>\<open>getHeight\<close> (lines 290-303).\<close>

partial_function (option) getHeight :: "'a node list \<Rightarrow> ref option \<Rightarrow> int option" where
  "getHeight h rt =
     (case rt of
        None \<Rightarrow> Some (- 1)
      | Some p \<Rightarrow>
          Option.bind (getHeight h (left (h ! p))) (\<lambda>a.
          Option.bind (getHeight h (right (h ! p))) (\<lambda>b. Some (1 + max a b))))"

definition height :: "'a bstset \<Rightarrow> int option" where
  "height t = getHeight (heap t) (root t)"

section \<open>The iterator\<close>

text \<open>
  \<^verbatim>\<open>BSTIterator\<close> (lines 470-552). Its attribute \<^verbatim>\<open>__tree\<close> is the tree the
  functions below take as their first argument.
\<close>

record BSTIterator =
  pending :: "ref option"
  current :: "ref option"

definition iterator :: "'a bstset \<Rightarrow> BSTIterator option" where
  "iterator t =
     Option.bind (getSmallestValue (heap t) (root t)) (\<lambda>c. Some \<lparr>pending = None, current = c\<rparr>)"


definition hasNext :: "BSTIterator \<Rightarrow> bool" where
  "hasNext it = (current it \<noteq> None)"


definition it_next :: "'a bstset \<Rightarrow> BSTIterator \<Rightarrow> ('a \<times> BSTIterator) res" where
  "it_next t it =
     (if \<not> hasNext it then Some (Inl StopIteration)
      else (case current it of
              None \<Rightarrow> Some (Inl AttributeError)
            | Some c \<Rightarrow>
                Option.bind (successor (heap t) c) (\<lambda>s.
                  Some (Inr (data (heap t ! c), \<lparr>pending = Some c, current = s\<rparr>)))))"

text \<open>
  Line 546 reads \<^verbatim>\<open>self.__tree.__root\<close> inside the class \<^verbatim>\<open>BSTIterator\<close>. Python
  mangles a name with two leading underscores by the class it is written in, so this is the
  attribute \<^verbatim>\<open>_BSTIterator__root\<close> of the tree; the tree's root is
  \<^verbatim>\<open>_BalancedBSTSet__root\<close> (line 79), and no tree has the other attribute.
\<close>

definition tree_BSTIterator_root :: "'a bstset \<Rightarrow> error + ref option" where
  "tree_BSTIterator_root t = Inl AttributeError"

text \<open>The iterator's \<^verbatim>\<open>remove\<close> (lines 536-552); it returns the tree as it left it.\<close>

definition it_remove :: "'a bstset \<Rightarrow> BSTIterator \<Rightarrow> 'a bstset \<times> BSTIterator \<times> unit res" where
  "it_remove t it =
     (case pending it of
        None \<Rightarrow> (t, it, Some (Inl IndexError))
      | Some p \<Rightarrow>
          (let par = parent (heap t ! p);
               it1 = (if left (heap t ! p) \<noteq> None \<and> right (heap t ! p) \<noteq> None
                      then it\<lparr>current := Some p\<rparr> else it)
           in (case unlinkNode t p of
                 None \<Rightarrow> (t, it1, None)
               | Some (Inl e) \<Rightarrow> (t, it1, Some (Inl e))
               | Some (Inr t1) \<Rightarrow>
                   (let it2 = it1\<lparr>pending := None\<rparr> in
                    (case tree_BSTIterator_root t1 of
                       Inl e \<Rightarrow> (t1, it2, Some (Inl e))
                     | Inr rt \<Rightarrow>
                         (case count_node (heap t1) rt of
                            None \<Rightarrow> (t1, it2, None)
                          | Some (h2, c) \<Rightarrow>
                              (let t2 = t1\<lparr>heap := h2\<rparr> in
                               (case rebalance_from t2 par of
                                  None \<Rightarrow> (t2, it2, None)
                                | Some (Inl e) \<Rightarrow> (t2, it2, Some (Inl e))
                                | Some (Inr t3) \<Rightarrow> (t3, it2, Some (Inr ()))))))))))"



text \<open>The recursive functions above run by their defining equations.\<close>

declare getSmallestValue.simps [code]
declare climb.simps [code]
declare inOrder.simps [code]
declare count_node.simps [code]
declare find_unbalanced.simps [code]
declare add_loop.simps [code]
declare findEntry_loop.simps [code]
declare getHeight.simps [code]

text \<open>A run of \<^verbatim>\<open>add\<close> calls, and of \<^verbatim>\<open>remove\<close> calls, in the given order.\<close>

fun adds :: "('a::linorder) bstset \<Rightarrow> 'a list \<Rightarrow> 'a bstset res" where
  "adds t [] = Some (Inr t)"
| "adds t (k # ks) = bindR (add t k) (\<lambda>(t1, b). adds t1 ks)"

section \<open>The shape of the pointer structure\<close>

text \<open>
  The properties of the code are proved through the binary tree that the nodes reachable
  from the root form. A \<open>shape\<close> is that tree, with the references of the nodes at its
  inner positions; \<open>is_tree h p par s\<close> says that in the arena \<open>h\<close> the reference
  \<open>p\<close> is the root of a subtree of shape \<open>s\<close> whose \<^verbatim>\<open>parent\<close> field is \<open>par\<close>,
  with the \<^verbatim>\<open>left\<close>, \<^verbatim>\<open>right\<close> and \<^verbatim>\<open>parent\<close> fields of all its nodes
  agreeing with the shape. The functions below describe, on shapes, what the code does to
  the arena; they are specification only, none of them is part of the program.
\<close>

datatype shape = Tip | Br shape ref shape

text \<open>The nodes of a shape in order, as an in-order traversal meets them.\<close>

fun nodes :: "shape \<Rightarrow> ref list" where
  "nodes Tip = []"
| "nodes (Br l a r) = nodes l @ a # nodes r"

fun is_tree :: "'a node list \<Rightarrow> ref option \<Rightarrow> ref option \<Rightarrow> shape \<Rightarrow> bool" where
  "is_tree h p par Tip = (p = None)"
| "is_tree h p par (Br l a r) =
     (p = Some a \<and> a < length h \<and> parent (h ! a) = par
      \<and> is_tree h (left (h ! a)) (Some a) l \<and> is_tree h (right (h ! a)) (Some a) r)"

text \<open>The height of a shape, counted in nodes (the code counts edges).\<close>

fun hgt :: "shape \<Rightarrow> nat" where
  "hgt Tip = 0"
| "hgt (Br l a r) = Suc (max (hgt l) (hgt r))"

text \<open>The arena after \<^verbatim>\<open>count_node\<close> has run over a subtree of shape \<open>s\<close>.\<close>

fun set_counters :: "shape \<Rightarrow> 'a node list \<Rightarrow> 'a node list" where
  "set_counters Tip h = h"
| "set_counters (Br l a r) h =
     (let h2 = set_counters r (set_counters l h)
      in h2[a := (h2 ! a)\<lparr>counter := int (length (nodes (Br l a r)))\<rparr>])"

text \<open>Every counter below a shape holds the number of nodes of its subtree.\<close>

fun cnt_ok :: "'a node list \<Rightarrow> shape \<Rightarrow> bool" where
  "cnt_ok h Tip = True"
| "cnt_ok h (Br l a r) =
     (counter (h ! a) = int (length (nodes (Br l a r))) \<and> cnt_ok h l \<and> cnt_ok h r)"

text \<open>Two arenas agree on the three links of a node.\<close>

definition same_links :: "'a node list \<Rightarrow> 'a node list \<Rightarrow> ref \<Rightarrow> bool" where
  "same_links h h' a =
     (left (h' ! a) = left (h ! a) \<and> right (h' ! a) = right (h ! a) \<and> parent (h' ! a) = parent (h ! a))"

text \<open>The shape after the loop of \<^verbatim>\<open>add\<close> has linked the new node \<open>n\<close> for the key \<open>k\<close>.\<close>

fun ins :: "('a::linorder) node list \<Rightarrow> 'a \<Rightarrow> ref \<Rightarrow> shape \<Rightarrow> shape" where
  "ins h k n Tip = Br Tip n Tip"
| "ins h k n (Br l a r) =
     (if k < data (h ! a) then Br (ins h k n l) a r
      else if data (h ! a) < k then Br l a (ins h k n r)
      else Br l a r)"

text \<open>The node under which the loop of \<^verbatim>\<open>add\<close> links the new node, and on which side; \<open>None\<close> when it meets the key.\<close>

fun slot :: "('a::linorder) node list \<Rightarrow> 'a \<Rightarrow> shape \<Rightarrow> (ref \<times> bool) option" where
  "slot h k Tip = None"
| "slot h k (Br l a r) =
     (if k < data (h ! a) then (case l of Tip \<Rightarrow> Some (a, True) | Br _ _ _ \<Rightarrow> slot h k l)
      else if data (h ! a) < k then (case r of Tip \<Rightarrow> Some (a, False) | Br _ _ _ \<Rightarrow> slot h k r)
      else None)"

text \<open>The arena after the new node is created and linked under \<open>cur\<close> (lines 136 and 152).\<close>

definition attach :: "'a node list \<Rightarrow> ref \<Rightarrow> bool \<Rightarrow> 'a \<Rightarrow> 'a node list" where
  "attach h cur is_left key =
     (let n = length h;
          h1 = h @ [Node_init key (Some cur)]
      in if is_left then h1[cur := (h1 ! cur)\<lparr>left := Some n\<rparr>]
         else h1[cur := (h1 ! cur)\<lparr>right := Some n\<rparr>])"

text \<open>The shape that \<^verbatim>\<open>rebuild_tree\<close> builds over the positions \<open>start\<close> to \<open>endi\<close> of the node list.\<close>

function build_range :: "ref list \<Rightarrow> int \<Rightarrow> int \<Rightarrow> shape" where
  "build_range ns start endi =
     (if start > endi then Tip
      else (let mid = start + (endi - start + 1) div 2
            in Br (build_range ns start (mid - 1)) (ns ! nat mid) (build_range ns (mid + 1) endi)))"
  by pat_completeness auto

termination
  by (relation "measure (\<lambda>(ns, start, endi). nat (endi - start + 1))") auto

declare build_range.simps [simp del]

declare rebuild_tree.simps [simp del]

text \<open>What \<^verbatim>\<open>rebuild_tree\<close> leaves unchanged: the size of the arena, every node outside \<open>X\<close>, and every key and counter.\<close>

definition rebuilt :: "'a node list \<Rightarrow> 'a node list \<Rightarrow> ref set \<Rightarrow> bool" where
  "rebuilt h h' X =
     (length h' = length h \<and> (\<forall>a. a \<notin> X \<longrightarrow> h' ! a = h ! a)
      \<and> (\<forall>a. data (h' ! a) = data (h ! a) \<and> counter (h' ! a) = counter (h ! a)))"

text \<open>The subtree of a shape below the node \<open>u\<close>.\<close>

fun subtree :: "ref \<Rightarrow> shape \<Rightarrow> shape" where
  "subtree u Tip = Tip"
| "subtree u (Br l a r) =
     (if a = u then Br l a r else if u \<in> set (nodes l) then subtree u l else subtree u r)"

text \<open>The shape with the subtree below \<open>u\<close> replaced by \<open>s'\<close>.\<close>

fun replace :: "ref \<Rightarrow> shape \<Rightarrow> shape \<Rightarrow> shape" where
  "replace u s' Tip = Tip"
| "replace u s' (Br l a r) =
     (if a = u then s'
      else if u \<in> set (nodes l) then Br (replace u s' l) a r
      else Br l a (replace u s' r))"

text \<open>A node outside the replaced subtree keeps its links, but for a child link to \<open>u\<close>, which becomes \<open>q\<close>.\<close>

definition relinked :: "'a node list \<Rightarrow> 'a node list \<Rightarrow> ref \<Rightarrow> ref option \<Rightarrow> ref \<Rightarrow> bool" where
  "relinked h h2 u q a =
     (parent (h2 ! a) = parent (h ! a)
      \<and> left (h2 ! a) = (if left (h ! a) = Some u then q else left (h ! a))
      \<and> right (h2 ! a) = (if right (h ! a) = Some u then q else right (h ! a)))"

text \<open>The shape after \<^verbatim>\<open>rebalance\<close> at the node \<open>u\<close>.\<close>

definition rebalanced :: "ref \<Rightarrow> shape \<Rightarrow> shape" where
  "rebalanced u S =
     replace u (build_range (nodes (subtree u S)) 0 (int (length (nodes (subtree u S))) - 1)) S"

text \<open>The attributes of the tree object that \<^verbatim>\<open>rebalance\<close> does not assign.\<close>

definition same_tree_fields :: "'a bstset \<Rightarrow> 'a bstset \<Rightarrow> bool" where
  "same_tree_fields t t' =
     (size_t t' = size_t t \<and> self_balancing t' = self_balancing t
      \<and> top_t t' = top_t t \<and> bottom_t t' = bottom_t t)"


text \<open>The invariant of the tree object: the nodes reachable from the root form a tree without sharing, every counter is the size of its subtree, and \<^verbatim>\<open>__size\<close> is the number of nodes.\<close>

definition tree_inv :: "'a bstset \<Rightarrow> shape \<Rightarrow> bool" where
  "tree_inv t S =
     (is_tree (heap t) (root t) None S \<and> distinct (nodes S) \<and> cnt_ok (heap t) S
      \<and> size_t t = int (length (nodes S)))"

text \<open>The node that \<^verbatim>\<open>findEntry\<close> returns.\<close>

fun find_ref :: "('a::linorder) node list \<Rightarrow> 'a \<Rightarrow> shape \<Rightarrow> ref option" where
  "find_ref h k Tip = None"
| "find_ref h k (Br l a r) =
     (if k < data (h ! a) then find_ref h k l
      else if data (h ! a) < k then find_ref h k r
      else Some a)"

text \<open>The arena after the parent of \<open>u\<close> is linked to \<open>q\<close> in the place of \<open>u\<close> (lines 238-241 and 391-396).\<close>

definition spliced :: "'a node list \<Rightarrow> 'a node list \<Rightarrow> ref \<Rightarrow> ref option \<Rightarrow> 'a node list" where
  "spliced h h1 u q =
     (case parent (h ! u) of
        None \<Rightarrow> h1
      | Some np \<Rightarrow>
          if left (h ! np) = Some u then h1[np := (h1 ! np)\<lparr>left := q\<rparr>]
          else h1[np := (h1 ! np)\<lparr>right := q\<rparr>])"

text \<open>A call of one of the two public operations that change the tree.\<close>

datatype 'a op = Add 'a | Remove 'a

text \<open>A sequence of calls of \<^verbatim>\<open>add\<close> and \<^verbatim>\<open>remove\<close>, each on the tree the previous one left; an exception ends the sequence.\<close>

fun run :: "('a::linorder) bstset \<Rightarrow> 'a op list \<Rightarrow> 'a bstset res" where
  "run t [] = Some (Inr t)"
| "run t (Add k # ops) = bindR (add t k) (\<lambda>(t1, b). run t1 ops)"
| "run t (Remove k # ops) = bindR (remove t k) (\<lambda>(t1, b). run t1 ops)"

text \<open>The counter of a child, 0 for an absent one (as \<^verbatim>\<open>count_node\<close> returns for \<^verbatim>\<open>None\<close>, line 457).\<close>

definition cnt :: "'a node list \<Rightarrow> ref option \<Rightarrow> int" where
  "cnt h p = (case p of None \<Rightarrow> 0 | Some c \<Rightarrow> counter (h ! c))"

text \<open>Every node that \<^verbatim>\<open>__inOrder\<close> reaches from the root has the counter 1 + left + right, and \<^verbatim>\<open>__size\<close> is the counter of the root.\<close>

definition counters_consistent :: "'a bstset \<Rightarrow> bool" where
  "counters_consistent t =
     (case inOrder (heap t) (root t) [] of
        None \<Rightarrow> False
      | Some ns \<Rightarrow>
          list_all (\<lambda>n. counter (heap t ! n)
                         = 1 + cnt (heap t) (left (heap t ! n)) + cnt (heap t) (right (heap t ! n))) ns
          \<and> size_t t = cnt (heap t) (root t))"


section \<open>Lemmas about the pointer structure\<close>

lemma is_tree_nodes_lt: "is_tree h p par s \<Longrightarrow> a \<in> set (nodes s) \<Longrightarrow> a < length h"
  by (induction s arbitrary: p par) auto

lemma is_tree_frame:
  "is_tree h p par s \<Longrightarrow> length h \<le> length h' \<Longrightarrow> (\<And>a. a \<in> set (nodes s) \<Longrightarrow> same_links h h' a)
   \<Longrightarrow> is_tree h' p par s"
proof (induction s arbitrary: p par)
  case Tip
  then show ?case by simp
next
  case (Br l a r)
  from Br.prems(3)[of a] have sl: "same_links h h' a" by simp
  from Br.prems(1) have a: "p = Some a" "a < length h" "parent (h ! a) = par"
    and l: "is_tree h (left (h ! a)) (Some a) l" and r: "is_tree h (right (h ! a)) (Some a) r"
    by simp_all
  have "is_tree h' (left (h ! a)) (Some a) l"
    using Br.IH(1)[OF l Br.prems(2)] Br.prems(3) by simp
  moreover have "is_tree h' (right (h ! a)) (Some a) r"
    using Br.IH(2)[OF r Br.prems(2)] Br.prems(3) by simp
  ultimately show ?case using a sl Br.prems(2) by (simp add: same_links_def)
qed

lemma is_tree_unique: "is_tree h p par s \<Longrightarrow> is_tree h p par' s' \<Longrightarrow> s = s'"
proof (induction s arbitrary: p par par' s')
  case Tip
  then show ?case by (cases s') auto
next
  case (Br l a r)
  then show ?case by (cases s') auto
qed

lemma inOrder_None [simp]: "inOrder h None arr = Some arr"
  by (subst inOrder.simps) simp

lemma inOrder_Some [simp]:
  "inOrder h (Some p) arr =
     Option.bind (inOrder h (left (h ! p)) arr) (\<lambda>arr1. inOrder h (right (h ! p)) (arr1 @ [p]))"
  by (subst inOrder.simps) simp

lemma inOrder_is_tree: "is_tree h p par s \<Longrightarrow> inOrder h p arr = Some (arr @ nodes s)"
  by (induction s arbitrary: p par arr) auto

lemma getHeight_None [simp]: "getHeight h None = Some (- 1)"
  by (subst getHeight.simps) simp

lemma getHeight_Some [simp]:
  "getHeight h (Some p) =
     Option.bind (getHeight h (left (h ! p))) (\<lambda>a.
     Option.bind (getHeight h (right (h ! p))) (\<lambda>b. Some (1 + max a b)))"
  by (subst getHeight.simps) simp

lemma getHeight_is_tree: "is_tree h p par s \<Longrightarrow> getHeight h p = Some (int (hgt s) - 1)"
  by (induction s arbitrary: p par) auto

lemma count_node_None [simp]: "count_node h None = Some (h, 0)"
  by (subst count_node.simps) simp

lemma count_node_Some [simp]:
  "count_node h (Some c) =
     Option.bind (count_node h (left (h ! c))) (\<lambda>(h1, a).
     Option.bind (count_node h1 (right (h1 ! c))) (\<lambda>(h2, b).
       Some (h2[c := (h2 ! c)\<lparr>counter := a + b + 1\<rparr>], a + b + 1)))"
  by (subst count_node.simps) simp

lemma nth_upd_same_field:
  assumes "f x = f (h ! a)"
  shows "f (h[a := x] ! b) = f (h ! b)"
proof (cases "a < length h")
  case True
  then show ?thesis using assms by (cases "a = b") simp_all
next
  case False
  then show ?thesis by (simp add: list_update_beyond not_less)
qed

lemma nth_upd_counter [simp]:
  "left (h[a := (h ! a)\<lparr>counter := c\<rparr>] ! b) = left (h ! b)"
  "right (h[a := (h ! a)\<lparr>counter := c\<rparr>] ! b) = right (h ! b)"
  "parent (h[a := (h ! a)\<lparr>counter := c\<rparr>] ! b) = parent (h ! b)"
  "data (h[a := (h ! a)\<lparr>counter := c\<rparr>] ! b) = data (h ! b)"
  by (rule nth_upd_same_field, simp)+

lemma set_counters_fields [simp]:
  "length (set_counters s h) = length h"
  "left (set_counters s h ! b) = left (h ! b)"
  "right (set_counters s h ! b) = right (h ! b)"
  "parent (set_counters s h ! b) = parent (h ! b)"
  "data (set_counters s h ! b) = data (h ! b)"
  by (induction s arbitrary: h; simp add: Let_def)+

lemma set_counters_outside: "b \<notin> set (nodes s) \<Longrightarrow> set_counters s h ! b = h ! b"
  by (induction s arbitrary: h) (auto simp: Let_def)

lemma is_tree_set_counters [simp]: "is_tree (set_counters s' h) p par s = is_tree h p par s"
  by (induction s arbitrary: p par) auto

lemma count_node_is_tree:
  "is_tree h p par s \<Longrightarrow> count_node h p = Some (set_counters s h, int (length (nodes s)))"
proof (induction s arbitrary: h p par)
  case Tip
  then show ?case by simp
next
  case (Br l a r)
  from Br.prems have l: "is_tree h (left (h ! a)) (Some a) l"
    and r: "is_tree h (right (h ! a)) (Some a) r" and p: "p = Some a" by simp_all
  have r': "is_tree (set_counters l h) (right (set_counters l h ! a)) (Some a) r"
    using r by simp
  show ?case
    using Br.IH(1)[OF l] Br.IH(2)[OF r'] p by (simp add: Let_def algebra_simps)
qed

lemma cnt_ok_outside:
  "cnt_ok h s \<Longrightarrow> (\<And>a. a \<in> set (nodes s) \<Longrightarrow> counter (h' ! a) = counter (h ! a)) \<Longrightarrow> cnt_ok h' s"
  by (induction s) auto

lemma cnt_ok_set_counters:
  "distinct (nodes s) \<Longrightarrow> set (nodes s) \<subseteq> {..<length h} \<Longrightarrow> cnt_ok (set_counters s h) s"
proof (induction s arbitrary: h)
  case Tip
  then show ?case by simp
next
  case (Br l a r)
  let ?h1 = "set_counters l h" and ?h2 = "set_counters r (set_counters l h)"
  let ?h3 = "?h2[a := (?h2 ! a)\<lparr>counter := int (length (nodes (Br l a r)))\<rparr>]"
  have l: "cnt_ok ?h1 l" using Br by simp
  have l2: "cnt_ok ?h2 l"
  proof (rule cnt_ok_outside[OF l])
    fix b assume "b \<in> set (nodes l)"
    then have "b \<notin> set (nodes r)" using Br.prems(1) by auto
    then show "counter (?h2 ! b) = counter (?h1 ! b)" by (simp add: set_counters_outside)
  qed
  have r2: "cnt_ok ?h2 r" using Br by simp
  have a: "a \<notin> set (nodes l)" "a \<notin> set (nodes r)" "a < length h" using Br.prems by auto
  have l3: "cnt_ok ?h3 l"
  proof (rule cnt_ok_outside[OF l2])
    fix b assume "b \<in> set (nodes l)"
    then have "b \<noteq> a" using a by auto
    then show "counter (?h3 ! b) = counter (?h2 ! b)" by simp
  qed
  have r3: "cnt_ok ?h3 r"
  proof (rule cnt_ok_outside[OF r2])
    fix b assume "b \<in> set (nodes r)"
    then have "b \<noteq> a" using a by auto
    then show "counter (?h3 ! b) = counter (?h2 ! b)" by simp
  qed
  have "counter (?h3 ! a) = int (length (nodes (Br l a r)))" using a by simp
  with l3 r3 show ?case by (simp add: Let_def)
qed

lemma add_loop_slot:
  "is_tree (heap t) (Some c) par s \<Longrightarrow>
   add_loop t c k =
     (case slot (heap t) k s of
        None \<Rightarrow> Some (Inr (t, False))
      | Some (a, b) \<Rightarrow> add_leaf t a b k)"
proof (induction s arbitrary: c par)
  case Tip
  then show ?case by simp
next
  case (Br l a r)
  from Br.prems have c: "c = a"
    and l: "is_tree (heap t) (left (heap t ! a)) (Some a) l"
    and r: "is_tree (heap t) (right (heap t ! a)) (Some a) r" by simp_all
  show ?case
  proof (cases "k < data (heap t ! a)")
    case True
    show ?thesis
    proof (cases l)
      case Tip
      with l True c show ?thesis
        by (subst add_loop.simps) (simp add: compareTo_def)
    next
      case (Br l1 b l2)
      with l have lb: "left (heap t ! a) = Some b" by simp
      from Br.IH(1)[of b "Some a"] l lb
      have "add_loop t b k =
         (case slot (heap t) k l of None \<Rightarrow> Some (Inr (t, False)) | Some (a, b) \<Rightarrow> add_leaf t a b k)"
        by simp
      with True c lb Br show ?thesis
        by (subst add_loop.simps) (simp add: compareTo_def)
    qed
  next
    case False
    show ?thesis
    proof (cases "data (heap t ! a) < k")
      case gt: True
      show ?thesis
      proof (cases r)
        case Tip
        with r gt False c show ?thesis
          by (subst add_loop.simps) (simp add: compareTo_def)
      next
        case (Br r1 b r2)
        with r have rb: "right (heap t ! a) = Some b" by simp
        from Br.IH(2)[of b "Some a"] r rb
        have "add_loop t b k =
           (case slot (heap t) k r of None \<Rightarrow> Some (Inr (t, False)) | Some (a, b) \<Rightarrow> add_leaf t a b k)"
          by simp
        with gt False c rb Br show ?thesis
          by (subst add_loop.simps) (simp add: compareTo_def)
      qed
    next
      case eq: False
      with False c show ?thesis
        by (subst add_loop.simps) (simp add: compareTo_def)
    qed
  qed
qed

lemma slot_in_nodes: "slot h k s = Some (a, b) \<Longrightarrow> a \<in> set (nodes s)"
  by (induction s) (auto split: if_splits shape.splits)

lemma attach_length [simp]: "length (attach h a b k) = Suc (length h)"
  by (simp add: attach_def Let_def)

lemma attach_other: "x < length h \<Longrightarrow> x \<noteq> a \<Longrightarrow> attach h a b k ! x = h ! x"
  by (simp add: attach_def Let_def nth_append)

lemma attach_new: "a < length h \<Longrightarrow> attach h a b k ! length h = Node_init k (Some a)"
  by (simp add: attach_def Let_def)

lemma attach_cur:
  "a < length h \<Longrightarrow>
   attach h a b k ! a = (if b then (h ! a)\<lparr>left := Some (length h)\<rparr> else (h ! a)\<lparr>right := Some (length h)\<rparr>)"
  by (simp add: attach_def Let_def nth_append)

lemma attach_data: "x < length h \<Longrightarrow> data (attach h a b k ! x) = data (h ! x)"
  by (cases "x = a") (simp_all add: attach_other attach_cur)

lemma attach_counter: "x < length h \<Longrightarrow> counter (attach h a b k ! x) = counter (h ! x)"
  by (cases "x = a") (simp_all add: attach_other attach_cur)

lemma is_tree_attach_frame:
  assumes "is_tree h p par s" and "a \<notin> set (nodes s)"
  shows "is_tree (attach h a b k) p par s"
proof (rule is_tree_frame[OF assms(1)])
  show "length h \<le> length (attach h a b k)" by simp
next
  fix x assume "x \<in> set (nodes s)"
  then have "x < length h" "x \<noteq> a" using assms is_tree_nodes_lt by auto
  then show "same_links h (attach h a b k) x" by (simp add: same_links_def attach_other)
qed

lemma is_tree_attach:
  "is_tree h p par s \<Longrightarrow> distinct (nodes s) \<Longrightarrow> slot h k s = Some (a, b) \<Longrightarrow>
   is_tree (attach h a b k) p par (ins h k (length h) s)"
proof (induction s arbitrary: p par)
  case Tip
  then show ?case by simp
next
  case (Br l c r)
  from Br.prems(1) have c: "p = Some c" "c < length h" "parent (h ! c) = par"
    and l: "is_tree h (left (h ! c)) (Some c) l"
    and r: "is_tree h (right (h ! c)) (Some c) r" by simp_all
  from Br.prems(2) have d: "distinct (nodes l)" "distinct (nodes r)" "c \<notin> set (nodes l)"
    "c \<notin> set (nodes r)" "set (nodes l) \<inter> set (nodes r) = {}" by auto
  show ?case
  proof (cases "k < data (h ! c)")
    case True
    show ?thesis
    proof (cases l)
      case Tip
      with True Br.prems(3) have ab: "a = c" "b" by simp_all
      have "is_tree (attach h c True k) (right (h ! c)) (Some c) r"
        using r d(4) by (rule is_tree_attach_frame)
      with Tip True ab c l show ?thesis
        by (simp add: attach_cur attach_new Node_init_def)
    next
      case (Br l1 e l2)
      with True Br.prems(3) have sl: "slot h k l = Some (a, b)" by simp
      then have al: "a \<in> set (nodes l)" by (rule slot_in_nodes)
      with d have ac: "a \<noteq> c" "a \<notin> set (nodes r)" by auto
      have "is_tree (attach h a b k) (left (h ! c)) (Some c) (ins h k (length h) l)"
        using Br.IH(1)[OF l d(1) sl] .
      moreover have "is_tree (attach h a b k) (right (h ! c)) (Some c) r"
        using r ac(2) by (rule is_tree_attach_frame)
      ultimately show ?thesis using True c ac by (simp add: attach_other)
    qed
  next
    case False
    show ?thesis
    proof (cases "data (h ! c) < k")
      case gt: True
      show ?thesis
      proof (cases r)
        case Tip
        with gt False Br.prems(3) have ab: "a = c" "\<not> b" by simp_all
        have "is_tree (attach h c False k) (left (h ! c)) (Some c) l"
          using l d(3) by (rule is_tree_attach_frame)
        with Tip gt False ab c r show ?thesis
          by (simp add: attach_cur attach_new Node_init_def)
      next
        case (Br r1 e r2)
        with gt False Br.prems(3) have sl: "slot h k r = Some (a, b)" by simp
        then have al: "a \<in> set (nodes r)" by (rule slot_in_nodes)
        with d have ac: "a \<noteq> c" "a \<notin> set (nodes l)" by auto
        have "is_tree (attach h a b k) (right (h ! c)) (Some c) (ins h k (length h) r)"
          using Br.IH(2)[OF r d(2) sl] .
        moreover have "is_tree (attach h a b k) (left (h ! c)) (Some c) l"
          using l ac(2) by (rule is_tree_attach_frame)
        ultimately show ?thesis using gt False c ac by (simp add: attach_other)
      qed
    next
      case eq: False
      with False Br.prems(3) show ?thesis by simp
    qed
  qed
qed

lemma find_unbalanced_None [simp]:
  "find_unbalanced t None = (if root t = None then Some (Inr None) else Some (Inl AttributeError))"
  by (subst find_unbalanced.simps) (auto simp: is_balanced_def)

lemma find_unbalanced_Some:
  "find_unbalanced t (Some p) =
     (if is_balanced t (Some p)
      then (if Some p = root t then Some (Inr None) else find_unbalanced t (parent (heap t ! p)))
      else Some (Inr (Some p)))"
  by (subst find_unbalanced.simps) simp

lemma find_unbalanced_climb:
  "is_tree (heap t) p par s \<Longrightarrow> n \<in> set (nodes s) \<Longrightarrow>
   (\<exists>u\<in>set (nodes s). find_unbalanced t (Some n) = Some (Inr (Some u)))
   \<or> find_unbalanced t (Some n) = Some (Inr None)
   \<or> (p \<noteq> root t \<and> find_unbalanced t (Some n) = find_unbalanced t par)"
proof (induction s arbitrary: p par n)
  case Tip
  then show ?case by simp
next
  case (Br l a r)
  from Br.prems(1) have a: "p = Some a" "parent (heap t ! a) = par"
    and l: "is_tree (heap t) (left (heap t ! a)) (Some a) l"
    and r: "is_tree (heap t) (right (heap t ! a)) (Some a) r" by simp_all
  have step: "find_unbalanced t (Some a) = Some (Inr (Some a))
      \<or> find_unbalanced t (Some a) = Some (Inr None)
      \<or> (p \<noteq> root t \<and> find_unbalanced t (Some a) = find_unbalanced t par)"
    using a by (subst (1 2 3) find_unbalanced_Some) auto
  from Br.prems(2) consider "n = a" | "n \<in> set (nodes l)" | "n \<in> set (nodes r)" by auto
  then show ?case
  proof cases
    case 1
    with step show ?thesis by auto
  next
    case 2
    from Br.IH(1)[OF l 2] step show ?thesis by auto
  next
    case 3
    from Br.IH(2)[OF r 3] step show ?thesis by auto
  qed
qed

lemma find_unbalanced_root:
  assumes "is_tree (heap t) (root t) None s" and "n \<in> set (nodes s)"
  shows "(\<exists>u\<in>set (nodes s). find_unbalanced t (Some n) = Some (Inr (Some u)))
         \<or> find_unbalanced t (Some n) = Some (Inr None)"
  using find_unbalanced_climb[OF assms] by auto

lemma nodes_build_range:
  "nodes (build_range ns start endi) = map (\<lambda>i. ns ! nat i) [start..endi]"
proof (induction ns start endi rule: build_range.induct)
  case (1 ns start endi)
  show ?case
  proof (cases "start > endi")
    case True
    then show ?thesis by (subst build_range.simps) simp
  next
    case False
    define mid where "mid = start + (endi - start + 1) div 2"
    have m: "start \<le> mid" "mid \<le> endi" using False by (auto simp: mid_def)
    have "[start..endi] = [start..mid - 1] @ mid # [mid + 1..endi]"
      using m by (rule upto_split3)
    moreover have "nodes (build_range ns start (mid - 1)) = map (\<lambda>i. ns ! nat i) [start..mid - 1]"
      using 1(1)[OF False mid_def] .
    moreover have "nodes (build_range ns (mid + 1) endi) = map (\<lambda>i. ns ! nat i) [mid + 1..endi]"
      using 1(2)[OF False mid_def] .
    ultimately show ?thesis
      using False by (subst build_range.simps) (simp add: Let_def mid_def[symmetric])
  qed
qed

lemma map_nth_upto: "map (\<lambda>i. ns ! nat i) [0..int (length ns) - 1] = ns"
  by (rule nth_equalityI) (auto simp: nth_upto)

lemma rebuild_tree_correct:
  assumes "distinct ns" and "0 \<le> start" and "endi < int (length ns)" and "\<forall>x\<in>set ns. x < length h"
  shows "\<exists>h' q. rebuild_tree h ns start endi par = (h', q)
           \<and> is_tree h' q par (build_range ns start endi)
           \<and> rebuilt h h' ((\<lambda>i. ns ! nat i) ` {start..endi})"
  using assms
proof (induction "nat (endi - start + 1)" arbitrary: h start endi par rule: less_induct)
  case less
  show ?case
  proof (cases "start > endi")
    case True
    then show ?thesis
      by (subst rebuild_tree.simps, subst build_range.simps) (simp add: rebuilt_def)
  next
    case False
    define mid where "mid = start + (endi - start + 1) div 2"
    define nd where "nd = ns ! nat mid"
    let ?f = "\<lambda>i. ns ! nat i"
    let ?XL = "?f ` {start..mid - 1}" and ?XR = "?f ` {mid + 1..endi}"
    have m: "start \<le> mid" "mid \<le> endi" using False by (auto simp: mid_def)
    have mr: "0 \<le> mid" "nat mid < length ns" using m less.prems by auto
    have inj: "\<And>i j. 0 \<le> i \<Longrightarrow> i < int (length ns) \<Longrightarrow> 0 \<le> j \<Longrightarrow> j < int (length ns)
                 \<Longrightarrow> ?f i = ?f j \<Longrightarrow> i = j"
      using less.prems(1) by (auto simp: nth_eq_iff_index_eq)
    have ndL: "nd \<notin> ?XL"
    proof
      assume "nd \<in> ?XL"
      then obtain i where "start \<le> i" "i \<le> mid - 1" "?f mid = ?f i" by (auto simp: nd_def)
      with inj[of mid i] m mr less.prems show False by auto
    qed
    have ndR: "nd \<notin> ?XR"
    proof
      assume "nd \<in> ?XR"
      then obtain i where "mid + 1 \<le> i" "i \<le> endi" "?f mid = ?f i" by (auto simp: nd_def)
      with inj[of mid i] m mr less.prems show False by auto
    qed
    have LR: "?XL \<inter> ?XR = {}"
    proof (rule ccontr)
      assume "?XL \<inter> ?XR \<noteq> {}"
      then obtain i j where "start \<le> i" "i \<le> mid - 1" "mid + 1 \<le> j" "j \<le> endi" "?f i = ?f j"
        by auto
      with inj[of i j] m mr less.prems show False by auto
    qed
    have X: "?f ` {start..endi} = ?XL \<union> {nd} \<union> ?XR"
    proof -
      have "{start..endi} = {start..mid - 1} \<union> {mid} \<union> {mid + 1..endi}" using m by auto
      then show ?thesis by (simp add: nd_def image_Un)
    qed
    have ndh: "nd < length h" using less.prems(4) mr by (simp add: nd_def)
    define h1 where "h1 = h[nd := (h ! nd)\<lparr>parent := par\<rparr>]"
    have len1: "length h1 = length h" by (simp add: h1_def)
    have "\<exists>h' q. rebuild_tree h1 ns start (mid - 1) (Some nd) = (h', q)
           \<and> is_tree h' q (Some nd) (build_range ns start (mid - 1))
           \<and> rebuilt h1 h' ?XL"
      using m less.prems by (intro less.hyps) (auto simp: len1)
    then obtain h2 l where r1: "rebuild_tree h1 ns start (mid - 1) (Some nd) = (h2, l)"
      and t1: "is_tree h2 l (Some nd) (build_range ns start (mid - 1))"
      and f1: "rebuilt h1 h2 ?XL" by blast
    define h3 where "h3 = h2[nd := (h2 ! nd)\<lparr>left := l\<rparr>]"
    have len2: "length h2 = length h" using f1 len1 by (simp add: rebuilt_def)
    have len3: "length h3 = length h" by (simp add: h3_def len2)
    have "\<exists>h' q. rebuild_tree h3 ns (mid + 1) endi (Some nd) = (h', q)
           \<and> is_tree h' q (Some nd) (build_range ns (mid + 1) endi)
           \<and> rebuilt h3 h' ?XR"
      using m less.prems by (intro less.hyps) (auto simp: len3)
    then obtain h4 r where r2: "rebuild_tree h3 ns (mid + 1) endi (Some nd) = (h4, r)"
      and t2: "is_tree h4 r (Some nd) (build_range ns (mid + 1) endi)"
      and f2: "rebuilt h3 h4 ?XR" by blast
    define h5 where "h5 = h4[nd := (h4 ! nd)\<lparr>right := r\<rparr>]"
    have len4: "length h4 = length h" using f2 len3 by (simp add: rebuilt_def)
    have res: "rebuild_tree h ns start endi par = (h5, Some nd)"
      using False
      by (subst rebuild_tree.simps)
         (simp add: Let_def mid_def[symmetric] nd_def[symmetric] h1_def[symmetric] r1
            h3_def[symmetric] r2 h5_def[symmetric])
    have nd2: "h2 ! nd = (h ! nd)\<lparr>parent := par\<rparr>"
      using f1 ndL ndh by (simp add: rebuilt_def h1_def)
    have nd4: "h4 ! nd = (h ! nd)\<lparr>parent := par, left := l\<rparr>"
      using f2 ndR ndh nd2 len2 by (simp add: rebuilt_def h3_def)
    have nd5: "h5 ! nd = (h ! nd)\<lparr>parent := par, left := l, right := r\<rparr>"
      using nd4 ndh len4 by (simp add: h5_def)
    have tl: "is_tree h5 l (Some nd) (build_range ns start (mid - 1))"
    proof (rule is_tree_frame[OF t1])
      show "length h2 \<le> length h5" by (simp add: h5_def len4 len2)
    next
      fix a assume "a \<in> set (nodes (build_range ns start (mid - 1)))"
      then have a: "a \<in> ?XL" by (simp add: nodes_build_range)
      with ndL LR have "a \<noteq> nd" "a \<notin> ?XR" by auto
      then have "h5 ! a = h2 ! a" using f2 by (simp add: h5_def h3_def rebuilt_def)
      then show "same_links h2 h5 a" by (simp add: same_links_def)
    qed
    have tr: "is_tree h5 r (Some nd) (build_range ns (mid + 1) endi)"
    proof (rule is_tree_frame[OF t2])
      show "length h4 \<le> length h5" by (simp add: h5_def)
    next
      fix a assume "a \<in> set (nodes (build_range ns (mid + 1) endi))"
      then have a: "a \<in> ?XR" by (simp add: nodes_build_range)
      with ndR have "a \<noteq> nd" by auto
      then have "h5 ! a = h4 ! a" by (simp add: h5_def)
      then show "same_links h4 h5 a" by (simp add: same_links_def)
    qed
    have tree: "is_tree h5 (Some nd) par (build_range ns start endi)"
      using False tl tr nd5 ndh len4
      by (subst build_range.simps)
         (simp add: Let_def mid_def[symmetric] nd_def[symmetric] h5_def)
    have out: "\<And>a. a \<notin> ?f ` {start..endi} \<Longrightarrow> h5 ! a = h ! a"
    proof -
      fix a assume "a \<notin> ?f ` {start..endi}"
      then have a: "a \<notin> ?XL" "a \<noteq> nd" "a \<notin> ?XR" unfolding X by auto
      have "h5 ! a = h4 ! a" using a by (simp add: h5_def)
      also have "\<dots> = h3 ! a" using f2 a by (simp add: rebuilt_def)
      also have "\<dots> = h2 ! a" using a by (simp add: h3_def)
      also have "\<dots> = h1 ! a" using f1 a by (simp add: rebuilt_def)
      also have "\<dots> = h ! a" using a by (simp add: h1_def)
      finally show "h5 ! a = h ! a" .
    qed
    have dc: "\<And>a. data (h5 ! a) = data (h ! a) \<and> counter (h5 ! a) = counter (h ! a)"
    proof -
      fix a
      have "data (h5 ! a) = data (h4 ! a) \<and> counter (h5 ! a) = counter (h4 ! a)"
        unfolding h5_def by (intro conjI nth_upd_same_field) simp_all
      moreover have "data (h4 ! a) = data (h3 ! a) \<and> counter (h4 ! a) = counter (h3 ! a)"
        using f2 by (simp add: rebuilt_def)
      moreover have "data (h3 ! a) = data (h2 ! a) \<and> counter (h3 ! a) = counter (h2 ! a)"
        unfolding h3_def by (intro conjI nth_upd_same_field) simp_all
      moreover have "data (h2 ! a) = data (h1 ! a) \<and> counter (h2 ! a) = counter (h1 ! a)"
        using f1 by (simp add: rebuilt_def)
      moreover have "data (h1 ! a) = data (h ! a) \<and> counter (h1 ! a) = counter (h ! a)"
        unfolding h1_def by (intro conjI nth_upd_same_field) simp_all
      ultimately show "data (h5 ! a) = data (h ! a) \<and> counter (h5 ! a) = counter (h ! a)" by simp
    qed
    have "rebuilt h h5 (?f ` {start..endi})"
      unfolding rebuilt_def using out dc by (simp add: h5_def len4)
    with res tree show ?thesis by blast
  qed
qed

lemma subtree_root: "u \<in> set (nodes S) \<Longrightarrow> \<exists>l r. subtree u S = Br l u r"
  by (induction S) auto

lemma nodes_subtree_subset: "set (nodes (subtree u S)) \<subseteq> set (nodes S)"
  by (induction S) auto

lemma distinct_subtree: "distinct (nodes S) \<Longrightarrow> distinct (nodes (subtree u S))"
  by (induction S) auto

lemma subtree_is_tree:
  "is_tree h p par S \<Longrightarrow> u \<in> set (nodes S) \<Longrightarrow> is_tree h (Some u) (parent (h ! u)) (subtree u S)"
  by (induction S arbitrary: p par) auto

lemma nodes_replace:
  "distinct (nodes S) \<Longrightarrow> u \<in> set (nodes S) \<Longrightarrow>
   \<exists>xs ys. nodes S = xs @ nodes (subtree u S) @ ys \<and> nodes (replace u s' S) = xs @ nodes s' @ ys"
proof (induction S)
  case Tip
  then show ?case by simp
next
  case (Br l a r)
  show ?case
  proof (cases "a = u")
    case True
    then have "nodes (Br l a r) = [] @ nodes (subtree u (Br l a r)) @ []
        \<and> nodes (replace u s' (Br l a r)) = [] @ nodes s' @ []" by simp
    then show ?thesis by blast
  next
    case False
    show ?thesis
    proof (cases "u \<in> set (nodes l)")
      case True
      with Br obtain xs ys where "nodes l = xs @ nodes (subtree u l) @ ys"
        "nodes (replace u s' l) = xs @ nodes s' @ ys" by auto
      with True False have "nodes (Br l a r) = xs @ nodes (subtree u (Br l a r)) @ (ys @ a # nodes r)
        \<and> nodes (replace u s' (Br l a r)) = xs @ nodes s' @ (ys @ a # nodes r)" by simp
      then show ?thesis by blast
    next
      case nl: False
      with False Br.prems have "u \<in> set (nodes r)" by auto
      with Br obtain xs ys where "nodes r = xs @ nodes (subtree u r) @ ys"
        "nodes (replace u s' r) = xs @ nodes s' @ ys" by auto
      with nl False have "nodes (Br l a r) = (nodes l @ a # xs) @ nodes (subtree u (Br l a r)) @ ys
        \<and> nodes (replace u s' (Br l a r)) = (nodes l @ a # xs) @ nodes s' @ ys" by simp
      then show ?thesis by blast
    qed
  qed
qed

lemma child_parent:
  "is_tree h p par S \<Longrightarrow> a \<in> set (nodes S) \<Longrightarrow> left (h ! a) = Some c \<or> right (h ! a) = Some c
   \<Longrightarrow> parent (h ! c) = Some a \<and> c \<in> set (nodes S)"
proof (induction S arbitrary: p par)
  case Tip
  then show ?case by simp
next
  case (Br l b r)
  from Br.prems(1) have l: "is_tree h (left (h ! b)) (Some b) l"
    and r: "is_tree h (right (h ! b)) (Some b) r" by simp_all
  from Br.prems(2) consider "a = b" | "a \<in> set (nodes l)" | "a \<in> set (nodes r)" by auto
  then show ?case
  proof cases
    case 1
    from Br.prems(3) show ?thesis
    proof
      assume "left (h ! a) = Some c"
      with l 1 show ?thesis by (cases l) auto
    next
      assume "right (h ! a) = Some c"
      with r 1 show ?thesis by (cases r) auto
    qed
  next
    case 2
    from Br.IH(1)[OF l 2 Br.prems(3)] show ?thesis by simp
  next
    case 3
    from Br.IH(2)[OF r 3 Br.prems(3)] show ?thesis by simp
  qed
qed

lemma children_differ:
  assumes "is_tree h p par S" and "distinct (nodes S)" and "a \<in> set (nodes S)"
    and "left (h ! a) = Some c"
  shows "right (h ! a) \<noteq> Some c"
proof -
  from subtree_root[OF assms(3)] obtain l r where s: "subtree a S = Br l a r" by blast
  from subtree_is_tree[OF assms(1,3)] s
  have l: "is_tree h (left (h ! a)) (Some a) l" and r: "is_tree h (right (h ! a)) (Some a) r"
    by simp_all
  from distinct_subtree[OF assms(2), of a] s have d: "set (nodes l) \<inter> set (nodes r) = {}" by auto
  from l assms(4) have "c \<in> set (nodes l)" by (cases l) auto
  with d have "c \<notin> set (nodes r)" by auto
  with r show ?thesis by (cases r) auto
qed

lemma parent_in_tree:
  "is_tree h p par S \<Longrightarrow> distinct (nodes S) \<Longrightarrow> u \<in> set (nodes S) \<Longrightarrow>
   (p = Some u \<and> parent (h ! u) = par)
   \<or> (\<exists>np\<in>set (nodes S). np \<notin> set (nodes (subtree u S)) \<and> parent (h ! u) = Some np
        \<and> (left (h ! np) = Some u \<or> right (h ! np) = Some u))"
proof (induction S arbitrary: p par)
  case Tip
  then show ?case by simp
next
  case (Br l a r)
  from Br.prems(1) have a: "p = Some a" "parent (h ! a) = par"
    and l: "is_tree h (left (h ! a)) (Some a) l"
    and r: "is_tree h (right (h ! a)) (Some a) r" by simp_all
  from Br.prems(2) have d: "distinct (nodes l)" "distinct (nodes r)" "a \<notin> set (nodes l)"
    "a \<notin> set (nodes r)" "set (nodes l) \<inter> set (nodes r) = {}" by auto
  from Br.prems(3) consider "u = a" | "u \<noteq> a" "u \<in> set (nodes l)" | "u \<noteq> a" "u \<in> set (nodes r)"
    by auto
  then show ?case
  proof cases
    case 1
    with a show ?thesis by simp
  next
    case 2
    have sub: "set (nodes (subtree u l)) \<subseteq> set (nodes l)" by (rule nodes_subtree_subset)
    from Br.IH(1)[OF l d(1) 2(2)] show ?thesis
    proof
      assume "left (h ! a) = Some u \<and> parent (h ! u) = Some a"
      with 2 d sub show ?thesis by auto
    next
      assume "\<exists>np\<in>set (nodes l). np \<notin> set (nodes (subtree u l)) \<and> parent (h ! u) = Some np
        \<and> (left (h ! np) = Some u \<or> right (h ! np) = Some u)"
      with 2 show ?thesis by auto
    qed
  next
    case 3
    then have nl: "u \<notin> set (nodes l)" using d by auto
    have sub: "set (nodes (subtree u r)) \<subseteq> set (nodes r)" by (rule nodes_subtree_subset)
    from Br.IH(2)[OF r d(2) 3(2)] show ?thesis
    proof
      assume "right (h ! a) = Some u \<and> parent (h ! u) = Some a"
      with 3 nl d sub show ?thesis by auto
    next
      assume "\<exists>np\<in>set (nodes r). np \<notin> set (nodes (subtree u r)) \<and> parent (h ! u) = Some np
        \<and> (left (h ! np) = Some u \<or> right (h ! np) = Some u)"
      with 3 nl show ?thesis by auto
    qed
  qed
qed

lemma is_tree_replace:
  assumes "is_tree h p par S" and "distinct (nodes S)" and "u \<in> set (nodes S)"
    and "length h \<le> length h2"
    and "\<And>a. a \<in> set (nodes S) \<Longrightarrow> a \<notin> set (nodes (subtree u S)) \<Longrightarrow> relinked h h2 u q a"
    and "is_tree h2 q (parent (h ! u)) s'"
  shows "is_tree h2 (if p = Some u then q else p) par (replace u s' S)"
  using assms
proof (induction S arbitrary: p par)
  case Tip
  then show ?case by simp
next
  case (Br l a r)
  from Br.prems(1) have a: "p = Some a" "a < length h" "parent (h ! a) = par"
    and l: "is_tree h (left (h ! a)) (Some a) l"
    and r: "is_tree h (right (h ! a)) (Some a) r" by simp_all
  from Br.prems(2) have d: "distinct (nodes l)" "distinct (nodes r)" "a \<notin> set (nodes l)"
    "a \<notin> set (nodes r)" "set (nodes l) \<inter> set (nodes r) = {}" by auto
  show ?case
  proof (cases "a = u")
    case True
    with a Br.prems(6) show ?thesis by simp
  next
    case False
    have frame: "is_tree h2 x (Some a) s"
      if s: "is_tree h x (Some a) s" and sub: "set (nodes s) \<subseteq> set (nodes (Br l a r))"
        and nu: "u \<notin> set (nodes s)"
        and dis: "set (nodes s) \<inter> set (nodes (subtree u (Br l a r))) = {}" for x s
    proof (rule is_tree_frame[OF s Br.prems(4)])
      fix b assume b: "b \<in> set (nodes s)"
      with sub dis have "relinked h h2 u q b" by (intro Br.prems(5)) auto
      moreover have "left (h ! b) \<noteq> Some u" "right (h ! b) \<noteq> Some u"
        using child_parent[OF s b, of u] nu by auto
      ultimately show "same_links h h2 b" by (simp add: relinked_def same_links_def)
    qed
    show ?thesis
    proof (cases "u \<in> set (nodes l)")
      case True
      have sub: "set (nodes (subtree u l)) \<subseteq> set (nodes l)" by (rule nodes_subtree_subset)
      have ra: "relinked h h2 u q a" using True False d sub by (intro Br.prems(5)) auto
      have nr: "right (h ! a) \<noteq> Some u"
      proof
        assume "right (h ! a) = Some u"
        with r have "u \<in> set (nodes r)" by (cases r) auto
        with True d show False by auto
      qed
      have "is_tree h2 (if left (h ! a) = Some u then q else left (h ! a)) (Some a) (replace u s' l)"
      proof (rule Br.IH(1)[OF l d(1) True Br.prems(4)])
        fix b assume "b \<in> set (nodes l)" "b \<notin> set (nodes (subtree u l))"
        with True False show "relinked h h2 u q b" by (intro Br.prems(5)) auto
      next
        from Br.prems(6) show "is_tree h2 q (parent (h ! u)) s'" .
      qed
      moreover have "is_tree h2 (right (h ! a)) (Some a) r"
        using r True False d sub by (intro frame) auto
      ultimately show ?thesis
        using True False a ra nr Br.prems(4) by (simp add: relinked_def)
    next
      case nl: False
      with False Br.prems(3) have ur: "u \<in> set (nodes r)" by auto
      have sub: "set (nodes (subtree u r)) \<subseteq> set (nodes r)" by (rule nodes_subtree_subset)
      have ra: "relinked h h2 u q a" using nl False d sub by (intro Br.prems(5)) auto
      have nl': "left (h ! a) \<noteq> Some u"
      proof
        assume "left (h ! a) = Some u"
        with l have "u \<in> set (nodes l)" by (cases l) auto
        with nl show False by auto
      qed
      have "is_tree h2 (if right (h ! a) = Some u then q else right (h ! a)) (Some a) (replace u s' r)"
      proof (rule Br.IH(2)[OF r d(2) ur Br.prems(4)])
        fix b assume "b \<in> set (nodes r)" "b \<notin> set (nodes (subtree u r))"
        with nl False show "relinked h h2 u q b" by (intro Br.prems(5)) auto
      next
        from Br.prems(6) show "is_tree h2 q (parent (h ! u)) s'" .
      qed
      moreover have "is_tree h2 (left (h ! a)) (Some a) l"
        using l nl False d sub by (intro frame) auto
      ultimately show ?thesis
        using nl False a ra nl' Br.prems(4) by (simp add: relinked_def)
    qed
  qed
qed

lemma nodes_rebalanced:
  assumes "distinct (nodes S)" and "u \<in> set (nodes S)"
  shows "nodes (rebalanced u S) = nodes S"
proof -
  let ?ns = "nodes (subtree u S)"
  let ?B = "build_range ?ns 0 (int (length ?ns) - 1)"
  from nodes_replace[OF assms, of ?B] obtain xs ys where
    "nodes S = xs @ ?ns @ ys" "nodes (replace u ?B S) = xs @ nodes ?B @ ys" by blast
  moreover have "nodes ?B = ?ns" by (simp add: nodes_build_range map_nth_upto)
  ultimately show ?thesis by (simp add: rebalanced_def)
qed

lemma count_root_is_tree:
  assumes "is_tree (heap t) (root t) None S"
  shows "count_root t = Some (t\<lparr>heap := set_counters S (heap t)\<rparr>)"
  using count_node_is_tree[OF assms] by (simp add: count_root_def)

lemma rebalance_correct:
  assumes T: "is_tree (heap t) (root t) None S" and D: "distinct (nodes S)" and U: "u \<in> set (nodes S)"
  shows "\<exists>t'. rebalance t (Some u) = Some (Inr t')
           \<and> is_tree (heap t') (root t') None (rebalanced u S)
           \<and> cnt_ok (heap t') (rebalanced u S)
           \<and> length (heap t') = length (heap t)
           \<and> (\<forall>a. data (heap t' ! a) = data (heap t ! a))
           \<and> same_tree_fields t t'"
proof -
  define h where "h = heap t"
  define ns where "ns = nodes (subtree u S)"
  define par where "par = parent (h ! u)"
  define B where "B = build_range ns 0 (int (length ns) - 1)"
  have S': "rebalanced u S = replace u B S" by (simp add: rebalanced_def B_def ns_def)
  have Th: "is_tree h (root t) None S" using T by (simp add: h_def)
  have sub: "is_tree h (Some u) par (subtree u S)"
    unfolding par_def using Th U by (rule subtree_is_tree)
  have io: "inOrder h (Some u) [] = Some ns"
    using inOrder_is_tree[OF sub, of "[]"] by (simp add: ns_def)
  have nsS: "set ns \<subseteq> set (nodes S)" unfolding ns_def by (rule nodes_subtree_subset)
  have dns: "distinct ns" unfolding ns_def using D by (rule distinct_subtree)
  have lt: "\<forall>x\<in>set ns. x < length h" using nsS is_tree_nodes_lt[OF Th] by auto
  have uns: "u \<in> set ns" using subtree_root[OF U] by (auto simp: ns_def)
  have img: "(\<lambda>i. ns ! nat i) ` {0..int (length ns) - 1} = set ns"
    using arg_cong[OF map_nth_upto[of ns], of set] by simp
  from rebuild_tree_correct[OF dns _ _ lt, of 0 "int (length ns) - 1" par]
  obtain h1 q where rb: "rebuild_tree h ns 0 (int (length ns) - 1) par = (h1, q)"
    and tB: "is_tree h1 q par B" and fr: "rebuilt h h1 (set ns)"
    by (auto simp: B_def img)
  have nB: "nodes B = ns" by (simp add: B_def nodes_build_range map_nth_upto)
  with uns obtain bl m br where Bm: "B = Br bl m br" by (cases B) auto
  with tB have q: "q = Some m" and pm: "parent (h1 ! m) = par" by simp_all
  have len1: "length h1 = length h" using fr by (simp add: rebuilt_def)
  have out1: "\<And>a. a \<notin> set ns \<Longrightarrow> h1 ! a = h ! a" using fr by (simp add: rebuilt_def)
  have dat1: "\<And>a. data (h1 ! a) = data (h ! a)" using fr by (simp add: rebuilt_def)
  have nochild: "left (h ! a) \<noteq> Some u \<and> right (h ! a) \<noteq> Some u"
    if "a \<in> set (nodes S)" "parent (h ! u) \<noteq> Some a" for a
    using child_parent[OF Th that(1), of u] that(2) by auto
  have fin: "\<exists>t'. count_root (t\<lparr>heap := h2, root := r2\<rparr>) = Some t'
           \<and> is_tree (heap t') (root t') None (rebalanced u S)
           \<and> cnt_ok (heap t') (rebalanced u S)
           \<and> length (heap t') = length (heap t)
           \<and> (\<forall>a. data (heap t' ! a) = data (heap t ! a))
           \<and> same_tree_fields t t'"
    if t2: "is_tree h2 r2 None (replace u B S)" and l2: "length h2 = length h"
      and d2: "\<And>a. data (h2 ! a) = data (h ! a)" for h2 r2
  proof -
    let ?t1 = "t\<lparr>heap := h2, root := r2\<rparr>"
    let ?t' = "?t1\<lparr>heap := set_counters (replace u B S) h2\<rparr>"
    have "count_root ?t1 = Some ?t'"
      using count_root_is_tree[of ?t1 "replace u B S"] t2 by simp
    moreover have "is_tree (heap ?t') (root ?t') None (rebalanced u S)" using t2 by (simp add: S')
    moreover have "cnt_ok (heap ?t') (rebalanced u S)"
    proof -
      have "distinct (nodes (rebalanced u S))" using nodes_rebalanced[OF D U] D by simp
      moreover have "set (nodes (rebalanced u S)) \<subseteq> {..<length h2}"
        using is_tree_nodes_lt[OF t2] by (auto simp: S')
      ultimately have "cnt_ok (set_counters (rebalanced u S) h2) (rebalanced u S)"
        by (rule cnt_ok_set_counters)
      then show ?thesis by (simp add: S')
    qed
    ultimately show ?thesis using l2 d2 by (auto simp: h_def same_tree_fields_def)
  qed
  from parent_in_tree[OF Th D U] show ?thesis
  proof
    assume A: "root t = Some u \<and> parent (h ! u) = None"
    then have parN: "par = None" by (simp add: par_def)
    have t2: "is_tree h1 (Some m) None (replace u B S)"
    proof -
      have "is_tree h1 (if root t = Some u then q else root t) None (replace u B S)"
      proof (rule is_tree_replace[OF Th D U])
        show "length h \<le> length h1" by (simp add: len1)
      next
        fix a assume a: "a \<in> set (nodes S)" "a \<notin> set (nodes (subtree u S))"
        then have "h1 ! a = h ! a" using out1 by (simp add: ns_def)
        moreover have "left (h ! a) \<noteq> Some u \<and> right (h ! a) \<noteq> Some u"
          using nochild[OF a(1)] A by simp
        ultimately show "relinked h h1 u q a" by (simp add: relinked_def)
      next
        show "is_tree h1 q (parent (h ! u)) B" using tB by (simp add: par_def)
      qed
      with A q show ?thesis by simp
    qed
    from fin[OF t2 len1 dat1] obtain t' where
      "count_root (t\<lparr>heap := h1, root := Some m\<rparr>) = Some t'"
      and rest: "is_tree (heap t') (root t') None (rebalanced u S)"
        "cnt_ok (heap t') (rebalanced u S)" "length (heap t') = length (heap t)"
        "\<forall>a. data (heap t' ! a) = data (heap t ! a)" "same_tree_fields t t'" by blast
    then have "rebalance t (Some u) = Some (Inr t')"
      using io rb q pm parN
      by (simp add: rebalance_def Let_def h_def[symmetric] par_def[symmetric] bindR_def)
    with rest show ?thesis by blast
  next
    assume "\<exists>np\<in>set (nodes S). np \<notin> set (nodes (subtree u S)) \<and> parent (h ! u) = Some np
        \<and> (left (h ! np) = Some u \<or> right (h ! np) = Some u)"
    then obtain np where np: "np \<in> set (nodes S)" "np \<notin> set ns" "parent (h ! u) = Some np"
      "left (h ! np) = Some u \<or> right (h ! np) = Some u" by (auto simp: ns_def)
    have parS: "par = Some np" using np by (simp add: par_def)
    have npl: "np < length h" using is_tree_nodes_lt[OF Th np(1)] .
    have np1: "h1 ! np = h ! np" using out1 np(2) by simp
    have rne: "root t \<noteq> Some u"
    proof
      assume "root t = Some u"
      with Th have "parent (h ! u) = None" by (cases S) auto
      with np show False by simp
    qed
    define h2 where "h2 = (if left (h ! np) = Some u then h1[np := (h1 ! np)\<lparr>left := Some m\<rparr>]
                           else h1[np := (h1 ! np)\<lparr>right := Some m\<rparr>])"
    have len2: "length h2 = length h" by (simp add: h2_def len1)
    have dat2: "\<And>a. data (h2 ! a) = data (h ! a)"
    proof -
      fix a
      have "data (h2 ! a) = data (h1 ! a)"
        unfolding h2_def by (auto intro!: nth_upd_same_field)
      then show "data (h2 ! a) = data (h ! a)" by (simp add: dat1)
    qed
    have oth: "\<And>a. a \<noteq> np \<Longrightarrow> h2 ! a = h1 ! a" by (simp add: h2_def)
    have t2: "is_tree h2 (root t) None (replace u B S)"
    proof -
      have "is_tree h2 (if root t = Some u then q else root t) None (replace u B S)"
      proof (rule is_tree_replace[OF Th D U])
        show "length h \<le> length h2" by (simp add: len2)
      next
        fix a assume a: "a \<in> set (nodes S)" "a \<notin> set (nodes (subtree u S))"
        show "relinked h h2 u q a"
        proof (cases "a = np")
          case True
          show ?thesis
          proof (cases "left (h ! np) = Some u")
            case l: True
            then have "right (h ! np) \<noteq> Some u" using children_differ[OF Th D np(1)] by simp
            with l True npl np1 q show ?thesis by (simp add: relinked_def h2_def len1)
          next
            case l: False
            with np(4) have "right (h ! np) = Some u" by simp
            with l True npl np1 q show ?thesis by (simp add: relinked_def h2_def len1)
          qed
        next
          case False
          then have "h2 ! a = h ! a" using oth out1 a by (simp add: ns_def)
          moreover have "left (h ! a) \<noteq> Some u \<and> right (h ! a) \<noteq> Some u"
            using nochild[OF a(1)] np(3) False by simp
          ultimately show ?thesis by (simp add: relinked_def)
        qed
      next
        have "is_tree h2 q par B"
        proof (rule is_tree_frame[OF tB])
          show "length h1 \<le> length h2" by (simp add: len1 len2)
        next
          fix a assume "a \<in> set (nodes B)"
          then have "a \<noteq> np" using nB np(2) by auto
          then show "same_links h1 h2 a" using oth by (simp add: same_links_def)
        qed
        then show "is_tree h2 q (parent (h ! u)) B" by (simp add: par_def)
      qed
      with rne show ?thesis by simp
    qed
    from fin[OF t2 len2 dat2] obtain t' where
      cr: "count_root (t\<lparr>heap := h2, root := root t\<rparr>) = Some t'"
      and rest: "is_tree (heap t') (root t') None (rebalanced u S)"
        "cnt_ok (heap t') (rebalanced u S)" "length (heap t') = length (heap t)"
        "\<forall>a. data (heap t' ! a) = data (heap t ! a)" "same_tree_fields t t'" by blast
    have "rebalance t (Some u) = Some (Inr t')"
    proof (cases "left (h ! np) = Some u")
      case True
      with cr io rb q pm parS np1 show ?thesis
        by (simp add: rebalance_def Let_def h_def[symmetric] par_def[symmetric] bindR_def h2_def)
    next
      case False
      with cr io rb q pm parS np1 show ?thesis
        by (simp add: rebalance_def Let_def h_def[symmetric] par_def[symmetric] bindR_def h2_def)
    qed
    with rest show ?thesis by blast
  qed
qed

lemma rebalance_from_correct:
  assumes T: "is_tree (heap t) (root t) None S" and D: "distinct (nodes S)"
    and C: "cnt_ok (heap t) S" and N: "n \<in> set (nodes S)"
  shows "\<exists>t' S'. rebalance_from t (Some n) = Some (Inr t')
           \<and> is_tree (heap t') (root t') None S' \<and> nodes S' = nodes S
           \<and> cnt_ok (heap t') S'
           \<and> length (heap t') = length (heap t)
           \<and> (\<forall>a. data (heap t' ! a) = data (heap t ! a))
           \<and> same_tree_fields t t'"
proof (cases "self_balancing t")
  case False
  with T C show ?thesis
    by (intro exI[of _ t] exI[of _ S]) (simp add: rebalance_from_def same_tree_fields_def)
next
  case True
  from find_unbalanced_root[OF T N] show ?thesis
  proof
    assume "\<exists>u\<in>set (nodes S). find_unbalanced t (Some n) = Some (Inr (Some u))"
    then obtain u where u: "u \<in> set (nodes S)" "find_unbalanced t (Some n) = Some (Inr (Some u))"
      by blast
    from rebalance_correct[OF T D u(1)] obtain t' where
      "rebalance t (Some u) = Some (Inr t')"
      "is_tree (heap t') (root t') None (rebalanced u S)"
      "cnt_ok (heap t') (rebalanced u S)" "length (heap t') = length (heap t)"
      "\<forall>a. data (heap t' ! a) = data (heap t ! a)" "same_tree_fields t t'" by blast
    with True u nodes_rebalanced[OF D u(1)] show ?thesis
      by (intro exI[of _ t'] exI[of _ "rebalanced u S"]) (simp add: rebalance_from_def bindR_def)
  next
    assume "find_unbalanced t (Some n) = Some (Inr None)"
    with True T C show ?thesis
      by (intro exI[of _ t] exI[of _ S]) (simp add: rebalance_from_def same_tree_fields_def bindR_def)
  qed
qed

lemma nodes_ins:
  "slot h k S = Some (a, b) \<Longrightarrow> \<exists>xs ys. nodes S = xs @ ys \<and> nodes (ins h k n S) = xs @ n # ys"
proof (induction S)
  case Tip
  then show ?case by simp
next
  case (Br l c r)
  show ?case
  proof (cases "k < data (h ! c)")
    case True
    show ?thesis
    proof (cases l)
      case Tip
      with True have "nodes (Br l c r) = [] @ (c # nodes r)
          \<and> nodes (ins h k n (Br l c r)) = [] @ n # (c # nodes r)" by simp
      then show ?thesis by blast
    next
      case (Br l1 e l2)
      with True Br.prems have "slot h k l = Some (a, b)" by simp
      from Br.IH(1)[OF this] obtain xs ys where "nodes l = xs @ ys"
        "nodes (ins h k n l) = xs @ n # ys" by blast
      with True have "nodes (Br l c r) = xs @ (ys @ c # nodes r)
          \<and> nodes (ins h k n (Br l c r)) = xs @ n # (ys @ c # nodes r)" by simp
      then show ?thesis by blast
    qed
  next
    case False
    show ?thesis
    proof (cases "data (h ! c) < k")
      case gt: True
      show ?thesis
      proof (cases r)
        case Tip
        with gt False have "nodes (Br l c r) = (nodes l @ [c]) @ []
            \<and> nodes (ins h k n (Br l c r)) = (nodes l @ [c]) @ n # []" by simp
        then show ?thesis by blast
      next
        case (Br r1 e r2)
        with gt False Br.prems have "slot h k r = Some (a, b)" by simp
        from Br.IH(2)[OF this] obtain xs ys where "nodes r = xs @ ys"
          "nodes (ins h k n r) = xs @ n # ys" by blast
        with gt False have "nodes (Br l c r) = (nodes l @ c # xs) @ ys
            \<and> nodes (ins h k n (Br l c r)) = (nodes l @ c # xs) @ n # ys" by simp
        then show ?thesis by blast
      qed
    next
      case eq: False
      with False Br.prems show ?thesis by simp
    qed
  qed
qed

lemma ins_slot_None: "slot h k S = None \<Longrightarrow> S \<noteq> Tip \<Longrightarrow> ins h k n S = S"
  by (induction S) (auto split: if_splits shape.splits)

lemma add_leaf_attach:
  "add_leaf t cur b key =
     Option.bind (count_root (t\<lparr>heap := attach (heap t) cur b key, size_t := size_t t + 1\<rparr>))
       (\<lambda>t2. bindR (rebalance_from t2 (Some cur)) (\<lambda>t3. Some (Inr (t3, True))))"
  by (cases b) (simp_all add: add_leaf_def attach_def Let_def)

lemma add_leaf_correct:
  assumes T: "is_tree (heap t) (root t) None S" and D: "distinct (nodes S)"
    and L: "slot (heap t) k S = Some (a, b)"
  shows "\<exists>t' S'. add_leaf t a b k = Some (Inr (t', True))
           \<and> is_tree (heap t') (root t') None S'
           \<and> nodes S' = nodes (ins (heap t) k (length (heap t)) S)
           \<and> distinct (nodes S')
           \<and> cnt_ok (heap t') S'
           \<and> length (heap t') = Suc (length (heap t))
           \<and> (\<forall>x<length (heap t). data (heap t' ! x) = data (heap t ! x))
           \<and> data (heap t' ! length (heap t)) = k
           \<and> size_t t' = size_t t + 1 \<and> self_balancing t' = self_balancing t
           \<and> top_t t' = top_t t \<and> bottom_t t' = bottom_t t"
proof -
  define h where "h = heap t"
  define n where "n = length h"
  define S1 where "S1 = ins h k n S"
  define t1 where "t1 = t\<lparr>heap := attach h a b k, size_t := size_t t + 1\<rparr>"
  define t2 where "t2 = t1\<lparr>heap := set_counters S1 (attach h a b k)\<rparr>"
  have Th: "is_tree h (root t) None S" using T by (simp add: h_def)
  have aS: "a \<in> set (nodes S)" using slot_in_nodes[OF L] .
  have al: "a < length h" using is_tree_nodes_lt[OF Th aS] .
  have nS: "n \<notin> set (nodes S)" using is_tree_nodes_lt[OF Th, of n] by (auto simp: n_def)
  from nodes_ins[of h k S a b n] L obtain xs ys where
    xy: "nodes S = xs @ ys" "nodes S1 = xs @ n # ys" by (auto simp: h_def S1_def)
  have D1: "distinct (nodes S1)" using D nS xy by auto
  have aS1: "a \<in> set (nodes S1)" using aS xy by auto
  have T1: "is_tree (heap t1) (root t1) None S1"
    using is_tree_attach[OF Th D, of k a b] L by (simp add: t1_def S1_def h_def n_def)
  have cr: "count_root t1 = Some t2"
    using count_root_is_tree[OF T1] by (simp add: t2_def t1_def)
  have T2: "is_tree (heap t2) (root t2) None S1" using T1 by (simp add: t2_def t1_def)
  have C2: "cnt_ok (heap t2) S1"
  proof -
    have "set (nodes S1) \<subseteq> {..<length (attach h a b k)}"
      using is_tree_nodes_lt[OF T1] by (auto simp: t1_def)
    with D1 show ?thesis unfolding t2_def by (simp add: cnt_ok_set_counters)
  qed
  from rebalance_from_correct[OF T2 D1 C2 aS1] obtain t' S' where
    rf: "rebalance_from t2 (Some a) = Some (Inr t')"
    and r: "is_tree (heap t') (root t') None S'" "nodes S' = nodes S1" "cnt_ok (heap t') S'"
      "length (heap t') = length (heap t2)" "\<forall>a. data (heap t' ! a) = data (heap t2 ! a)"
      "same_tree_fields t2 t'" by blast
  have "add_leaf t a b k = Some (Inr (t', True))"
    using cr rf
    by (simp add: add_leaf_attach h_def[symmetric] t1_def[symmetric] bindR_def)
  moreover have "\<forall>x<length (heap t). data (heap t' ! x) = data (heap t ! x)"
    using r(5) by (simp add: t2_def t1_def attach_data h_def)
  moreover have "data (heap t' ! length (heap t)) = k"
    using r(5) al by (simp add: t2_def t1_def attach_new h_def[symmetric] Node_init_def)
  ultimately show ?thesis
    using r D1 by (intro exI[of _ t'] exI[of _ S'])
      (simp add: S1_def h_def n_def same_tree_fields_def t2_def t1_def)
qed

lemma add_correct:
  assumes I: "tree_inv t S"
  shows "\<exists>t' b S'. add t k = Some (Inr (t', b))
           \<and> tree_inv t' S'
           \<and> nodes S' = nodes (ins (heap t) k (length (heap t)) S)
           \<and> (\<forall>x<length (heap t). data (heap t' ! x) = data (heap t ! x))
           \<and> (b \<longrightarrow> data (heap t' ! length (heap t)) = k)
           \<and> b = (nodes S' \<noteq> nodes S)
           \<and> self_balancing t' = self_balancing t
           \<and> top_t t' = top_t t \<and> bottom_t t' = bottom_t t"
proof -
  from I have T: "is_tree (heap t) (root t) None S" and D: "distinct (nodes S)"
    and C: "cnt_ok (heap t) S" and Z: "size_t t = int (length (nodes S))"
    by (simp_all add: tree_inv_def)
  show ?thesis
  proof (cases S)
    case Tip
    with T have rt: "root t = None" by simp
    define n where "n = length (heap t)"
    define t1 where "t1 = t\<lparr>heap := heap t @ [Node_init k None], root := Some n, size_t := size_t t + 1\<rparr>"
    define S1 where "S1 = Br Tip n Tip"
    have T1: "is_tree (heap t1) (root t1) None S1"
      by (simp add: t1_def S1_def n_def Node_init_def)
    define t2 where "t2 = t1\<lparr>heap := set_counters S1 (heap t1)\<rparr>"
    have cr: "count_root t1 = Some t2" using count_root_is_tree[OF T1] by (simp add: t2_def)
    have "add t k = Some (Inr (t2, True))"
      using rt cr by (simp add: add_def Let_def n_def[symmetric] t1_def[symmetric])
    moreover have "tree_inv t2 S1"
      using Z Tip by (simp add: tree_inv_def t2_def t1_def S1_def n_def Node_init_def)
    moreover have "\<forall>x<length (heap t). data (heap t2 ! x) = data (heap t ! x)"
      by (simp add: t2_def t1_def nth_append)
    moreover have "data (heap t2 ! length (heap t)) = k"
      by (simp add: t2_def t1_def Node_init_def)
    ultimately show ?thesis
      using Tip by (intro exI[of _ t2] exI[of _ True] exI[of _ S1])
        (simp add: S1_def n_def t2_def t1_def)
  next
    case (Br l c r)
    with T have rt: "root t = Some c" by simp
    have al: "add t k = (case slot (heap t) k S of
        None \<Rightarrow> Some (Inr (t, False)) | Some (a, b) \<Rightarrow> add_leaf t a b k)"
      using add_loop_slot[of t c None S k] T rt by (simp add: add_def)
    show ?thesis
    proof (cases "slot (heap t) k S")
      case None
      then have "ins (heap t) k (length (heap t)) S = S" using Br by (intro ins_slot_None) simp_all
      with None al I show ?thesis
        by (intro exI[of _ t] exI[of _ False] exI[of _ S]) simp
    next
      case (Some ab)
      obtain a b where ab: "ab = (a, b)" by (cases ab)
      from add_leaf_correct[OF T D Some[unfolded ab]] obtain t' S' where
        r: "add_leaf t a b k = Some (Inr (t', True))"
        "is_tree (heap t') (root t') None S'"
        "nodes S' = nodes (ins (heap t) k (length (heap t)) S)"
        "distinct (nodes S')" "cnt_ok (heap t') S'"
        "length (heap t') = Suc (length (heap t))"
        "\<forall>x<length (heap t). data (heap t' ! x) = data (heap t ! x)"
        "data (heap t' ! length (heap t)) = k"
        "size_t t' = size_t t + 1" "self_balancing t' = self_balancing t"
        "top_t t' = top_t t" "bottom_t t' = bottom_t t" by blast
      from nodes_ins[OF Some[unfolded ab], of "length (heap t)"] obtain xs ys where
        xy: "nodes S = xs @ ys" "nodes (ins (heap t) k (length (heap t)) S) = xs @ length (heap t) # ys"
        by blast
      have ne: "nodes S' \<noteq> nodes S" using r(3) xy by simp
      have "tree_inv t' S'" using r Z xy by (simp add: tree_inv_def)
      with r ne al Some ab show ?thesis
        by (intro exI[of _ t'] exI[of _ True] exI[of _ S']) simp
    qed
  qed
qed

lemma getSmallestValue_None [simp]: "getSmallestValue h None = Some None"
  by (subst getSmallestValue.simps) simp

lemma getSmallestValue_Some:
  "getSmallestValue h (Some p) =
     (case left (h ! p) of None \<Rightarrow> Some (Some p) | Some l \<Rightarrow> getSmallestValue h (Some l))"
  by (subst getSmallestValue.simps) simp

lemma getSmallestValue_is_tree:
  "is_tree h (Some a) par s \<Longrightarrow> getSmallestValue h (Some a) = Some (Some (hd (nodes s)))"
proof (induction s arbitrary: a par)
  case Tip
  then show ?case by simp
next
  case (Br l b r)
  from Br.prems have b: "a = b" and l: "is_tree h (left (h ! b)) (Some b) l" by simp_all
  show ?case
  proof (cases l)
    case Tip
    with l b show ?thesis by (subst getSmallestValue_Some) simp
  next
    case (Br l1 c l2)
    with l have lc: "left (h ! b) = Some c" by simp
    from Br.IH(1)[of c "Some b"] l lc
    have "getSmallestValue h (Some c) = Some (Some (hd (nodes l)))" by simp
    with lc b Br show ?thesis by (subst getSmallestValue_Some) (simp add: hd_append)
  qed
qed











lemma tree_inv_init: "tree_inv (init sb tp bt) Tip"
  by (simp add: tree_inv_def init_def)

lemma findEntry_loop_None [simp]: "findEntry_loop h None key = Some None"
  by (subst findEntry_loop.simps) simp

lemma findEntry_loop_Some:
  "findEntry_loop h (Some c) key =
     (let comp = compareTo (h ! c) key in
      if comp = 0 then Some (Some c)
      else if comp > 0 then findEntry_loop h (left (h ! c)) key
      else findEntry_loop h (right (h ! c)) key)"
  by (subst findEntry_loop.simps) simp

lemma findEntry_loop_is_tree:
  "is_tree h p par s \<Longrightarrow> findEntry_loop h p k = Some (find_ref h k s)"
proof (induction s arbitrary: p par)
  case Tip
  then show ?case by simp
next
  case (Br l a r)
  from Br.prems have p: "p = Some a"
    and l: "is_tree h (left (h ! a)) (Some a) l"
    and r: "is_tree h (right (h ! a)) (Some a) r" by simp_all
  show ?case
    unfolding p
    by (subst findEntry_loop_Some) (simp add: compareTo_def Br.IH(1)[OF l] Br.IH(2)[OF r])
qed

lemma find_ref_in_nodes: "find_ref h k s = Some n \<Longrightarrow> n \<in> set (nodes s)"
  by (induction s) (auto split: if_splits)

lemma is_tree_reparent:
  assumes "is_tree h (Some c) par0 s" and "distinct (nodes s)" and "length h \<le> length h2"
    and "parent (h2 ! c) = par1" and "left (h2 ! c) = left (h ! c)" and "right (h2 ! c) = right (h ! c)"
    and "\<And>a. a \<in> set (nodes s) \<Longrightarrow> a \<noteq> c \<Longrightarrow> same_links h h2 a"
  shows "is_tree h2 (Some c) par1 s"
proof (cases s)
  case Tip
  with assms(1) show ?thesis by simp
next
  case (Br l a r)
  with assms(1) have a: "a = c" "c < length h"
    and l: "is_tree h (left (h ! c)) (Some c) l"
    and r: "is_tree h (right (h ! c)) (Some c) r" by simp_all
  from assms(2) Br a have d: "c \<notin> set (nodes l)" "c \<notin> set (nodes r)" by auto
  have "is_tree h2 (left (h ! c)) (Some c) l"
    using l assms(3)
  proof (rule is_tree_frame)
    fix x assume "x \<in> set (nodes l)"
    with d Br show "same_links h h2 x" by (intro assms(7)) auto
  qed
  moreover have "is_tree h2 (right (h ! c)) (Some c) r"
    using r assms(3)
  proof (rule is_tree_frame)
    fix x assume "x \<in> set (nodes r)"
    with d Br show "same_links h h2 x" by (intro assms(7)) auto
  qed
  ultimately show ?thesis using Br a assms(3,4,5,6) by simp
qed

lemma is_tree_spliced:
  assumes T: "is_tree h rt None S" and D: "distinct (nodes S)" and U: "u \<in> set (nodes S)"
    and len: "length h1 = length h"
    and out: "\<And>a. a \<notin> set (nodes (subtree u S)) \<Longrightarrow> h1 ! a = h ! a"
    and tq: "is_tree h1 q (parent (h ! u)) s'"
    and sub: "set (nodes s') \<subseteq> set (nodes (subtree u S))"
  shows "is_tree (spliced h h1 u q) (if parent (h ! u) = None then q else rt) None (replace u s' S)"
proof -
  let ?h2 = "spliced h h1 u q"
  have nochild: "left (h ! a) \<noteq> Some u \<and> right (h ! a) \<noteq> Some u"
    if "a \<in> set (nodes S)" "parent (h ! u) \<noteq> Some a" for a
    using child_parent[OF T that(1), of u] that(2) by auto
  have len2: "length ?h2 = length h" by (simp add: spliced_def len split: option.split)
  from parent_in_tree[OF T D U] show ?thesis
  proof
    assume A: "rt = Some u \<and> parent (h ! u) = None"
    then have h2: "?h2 = h1" by (simp add: spliced_def)
    have "is_tree h1 (if rt = Some u then q else rt) None (replace u s' S)"
    proof (rule is_tree_replace[OF T D U])
      show "length h \<le> length h1" by (simp add: len)
    next
      fix a assume a: "a \<in> set (nodes S)" "a \<notin> set (nodes (subtree u S))"
      then have "h1 ! a = h ! a" using out by simp
      moreover have "left (h ! a) \<noteq> Some u \<and> right (h ! a) \<noteq> Some u"
        using nochild[OF a(1)] A by simp
      ultimately show "relinked h h1 u q a" by (simp add: relinked_def)
    next
      show "is_tree h1 q (parent (h ! u)) s'" by (rule tq)
    qed
    with A h2 show ?thesis by simp
  next
    assume "\<exists>np\<in>set (nodes S). np \<notin> set (nodes (subtree u S)) \<and> parent (h ! u) = Some np
        \<and> (left (h ! np) = Some u \<or> right (h ! np) = Some u)"
    then obtain np where np: "np \<in> set (nodes S)" "np \<notin> set (nodes (subtree u S))"
      "parent (h ! u) = Some np" "left (h ! np) = Some u \<or> right (h ! np) = Some u" by auto
    have npl: "np < length h" using is_tree_nodes_lt[OF T np(1)] .
    have np1: "h1 ! np = h ! np" using out np(2) by simp
    have rne: "rt \<noteq> Some u"
    proof
      assume "rt = Some u"
      with T have "parent (h ! u) = None" by (cases S) auto
      with np show False by simp
    qed
    have h2: "?h2 = (if left (h ! np) = Some u then h1[np := (h1 ! np)\<lparr>left := q\<rparr>]
                     else h1[np := (h1 ! np)\<lparr>right := q\<rparr>])"
      using np(3) by (simp add: spliced_def)
    have oth: "\<And>a. a \<noteq> np \<Longrightarrow> ?h2 ! a = h1 ! a" by (simp add: h2)
    have "is_tree ?h2 (if rt = Some u then q else rt) None (replace u s' S)"
    proof (rule is_tree_replace[OF T D U])
      show "length h \<le> length ?h2" by (simp add: len2)
    next
      fix a assume a: "a \<in> set (nodes S)" "a \<notin> set (nodes (subtree u S))"
      show "relinked h ?h2 u q a"
      proof (cases "a = np")
        case True
        show ?thesis
        proof (cases "left (h ! np) = Some u")
          case l: True
          then have "right (h ! np) \<noteq> Some u" using children_differ[OF T D np(1)] by simp
          with l True npl np1 show ?thesis by (simp add: relinked_def h2 len)
        next
          case l: False
          with np(4) have "right (h ! np) = Some u" by simp
          with l True npl np1 show ?thesis by (simp add: relinked_def h2 len)
        qed
      next
        case False
        then have "?h2 ! a = h ! a" using oth out a by simp
        moreover have "left (h ! a) \<noteq> Some u \<and> right (h ! a) \<noteq> Some u"
          using nochild[OF a(1)] np(3) False by simp
        ultimately show ?thesis by (simp add: relinked_def)
      qed
    next
      show "is_tree ?h2 q (parent (h ! u)) s'"
      proof (rule is_tree_frame[OF tq])
        show "length h1 \<le> length ?h2" by (simp add: len len2)
      next
        fix a assume "a \<in> set (nodes s')"
        then have "a \<noteq> np" using sub np(2) by auto
        then show "same_links h1 ?h2 a" using oth by (simp add: same_links_def)
      qed
    qed
    with rne np(3) show ?thesis by simp
  qed
qed

lemma subtree_subtree:
  "distinct (nodes S) \<Longrightarrow> u \<in> set (nodes (subtree n S)) \<Longrightarrow> subtree u (subtree n S) = subtree u S"
proof (induction S)
  case Tip
  then show ?case by simp
next
  case (Br l a r)
  have sl: "set (nodes (subtree n l)) \<subseteq> set (nodes l)" by (rule nodes_subtree_subset)
  have sr: "set (nodes (subtree n r)) \<subseteq> set (nodes r)" by (rule nodes_subtree_subset)
  show ?case
  proof (cases "a = n")
    case True
    then show ?thesis by simp
  next
    case False
    show ?thesis
    proof (cases "n \<in> set (nodes l)")
      case True
      with False Br.prems have u: "u \<in> set (nodes (subtree n l))" by simp
      with sl have "u \<in> set (nodes l)" by auto
      moreover from this Br.prems(1) have "u \<noteq> a" by auto
      ultimately show ?thesis using True False Br u by simp
    next
      case nl: False
      with False Br.prems have u: "u \<in> set (nodes (subtree n r))" by simp
      with sr have ur: "u \<in> set (nodes r)" by auto
      with Br.prems(1) have "u \<noteq> a" "u \<notin> set (nodes l)" by auto
      then show ?thesis using nl False Br u by simp
    qed
  qed
qed

lemma hd_subtree:
  "r \<noteq> Tip \<Longrightarrow> distinct (nodes r) \<Longrightarrow> \<exists>rs. subtree (hd (nodes r)) r = Br Tip (hd (nodes r)) rs"
proof (induction r)
  case Tip
  then show ?case by simp
next
  case (Br r1 c r2)
  show ?case
  proof (cases r1)
    case Tip
    then show ?thesis by simp
  next
    case (Br a b d)
    then have ne: "nodes r1 \<noteq> []" and r1: "r1 \<noteq> Tip" by simp_all
    have hd: "hd (nodes (shape.Br r1 c r2)) = hd (nodes r1)" using ne by (simp add: hd_append)
    have in1: "hd (nodes r1) \<in> set (nodes r1)" using ne by simp
    with Br.prems(2) have nc: "hd (nodes r1) \<noteq> c" by auto
    from Br.prems(2) have "distinct (nodes r1)" by simp
    from Br.IH(1)[OF r1 this] obtain rs where
      "subtree (hd (nodes r1)) r1 = shape.Br Tip (hd (nodes r1)) rs" by blast
    then have "subtree (hd (nodes (shape.Br r1 c r2))) (shape.Br r1 c r2)
        = shape.Br Tip (hd (nodes (shape.Br r1 c r2))) rs"
      unfolding hd using nc in1 by simp
    then show ?thesis by blast
  qed
qed

lemma nodes_replace_unlink:
  assumes "distinct (nodes S)" and "m \<in> set (nodes S)" and "subtree m S = Br lm m rm"
    and "nodes s' = nodes lm @ nodes rm"
  shows "distinct (nodes (replace m s' S)) \<and> set (nodes (replace m s' S)) = set (nodes S) - {m}
         \<and> int (length (nodes (replace m s' S))) = int (length (nodes S)) - 1"
proof -
  from nodes_replace[OF assms(1,2), of s'] obtain xs ys where
    "nodes S = xs @ nodes (subtree m S) @ ys" "nodes (replace m s' S) = xs @ nodes s' @ ys" by blast
  with assms show ?thesis by auto
qed

lemma unlink_at_correct:
  assumes T: "is_tree (heap t) (root t) None S" and D: "distinct (nodes S)"
    and M: "m \<in> set (nodes S)" and sub: "subtree m S = Br lm m rm" and one: "lm = Tip \<or> rm = Tip"
  shows "\<exists>S'. is_tree (heap (unlink_at t m)) (root (unlink_at t m)) None S'
           \<and> distinct (nodes S') \<and> set (nodes S') = set (nodes S) - {m}
           \<and> int (length (nodes S')) = int (length (nodes S)) - 1
           \<and> length (heap (unlink_at t m)) = length (heap t)
           \<and> (\<forall>a. data (heap (unlink_at t m) ! a) = data (heap t ! a))
           \<and> size_t (unlink_at t m) = size_t t - 1
           \<and> self_balancing (unlink_at t m) = self_balancing t
           \<and> top_t (unlink_at t m) = top_t t \<and> bottom_t (unlink_at t m) = bottom_t t"
proof -
  define h where "h = heap t"
  define s' where "s' = (if lm = Tip then rm else lm)"
  define q where "q = (case left (h ! m) of Some l \<Rightarrow> Some l | None \<Rightarrow> right (h ! m))"
  define h1 where "h1 = (case q of None \<Rightarrow> h | Some rp \<Rightarrow> h[rp := (h ! rp)\<lparr>parent := parent (h ! m)\<rparr>])"
  have Th: "is_tree h (root t) None S" using T by (simp add: h_def)
  have tm: "is_tree h (Some m) (parent (h ! m)) (Br lm m rm)"
    using subtree_is_tree[OF Th M] sub by simp
  then have tl: "is_tree h (left (h ! m)) (Some m) lm" and tr: "is_tree h (right (h ! m)) (Some m) rm"
    and ml: "m < length h" by simp_all
  have dm: "distinct (nodes (Br lm m rm))" using distinct_subtree[OF D, of m] sub by simp
  have ts': "is_tree h q (Some m) s'"
  proof (cases "lm = Tip")
    case True
    with tl have "left (h ! m) = None" by simp
    with True tr show ?thesis by (simp add: q_def s'_def)
  next
    case False
    with tl obtain l where "left (h ! m) = Some l" by (cases lm) auto
    with False tl show ?thesis by (simp add: q_def s'_def)
  qed
  have ns': "nodes s' = nodes lm @ nodes rm" using one by (auto simp: s'_def)
  have ds': "distinct (nodes s')" "m \<notin> set (nodes s')" using dm ns' by auto
  have subs: "set (nodes s') \<subseteq> set (nodes (subtree m S))" using ns' sub by auto
  have len1: "length h1 = length h" by (simp add: h1_def split: option.split)
  have out: "\<And>a. a \<notin> set (nodes (subtree m S)) \<Longrightarrow> h1 ! a = h ! a"
  proof -
    fix a assume a: "a \<notin> set (nodes (subtree m S))"
    show "h1 ! a = h ! a"
    proof (cases q)
      case None
      then show ?thesis by (simp add: h1_def)
    next
      case (Some rp)
      with ts' have "rp \<in> set (nodes s')" by (cases s') auto
      with subs a have "rp \<noteq> a" by auto
      with Some show ?thesis by (simp add: h1_def)
    qed
  qed
  have dat1: "\<And>a. data (h1 ! a) = data (h ! a)"
    unfolding h1_def by (auto split: option.split intro!: nth_upd_same_field)
  have tq: "is_tree h1 q (parent (h ! m)) s'"
  proof (cases q)
    case None
    with ts' show ?thesis by (cases s') (auto simp: h1_def)
  next
    case (Some rp)
    with ts' have rp: "rp \<in> set (nodes s')" "rp < length h" by (cases s'; auto)+
    have h1: "h1 = h[rp := (h ! rp)\<lparr>parent := parent (h ! m)\<rparr>]" using Some by (simp add: h1_def)
    have "is_tree h1 (Some rp) (parent (h ! m)) s'"
    proof (rule is_tree_reparent[OF ts'[unfolded Some] ds'(1)])
      show "length h \<le> length h1" by (simp add: len1)
      show "parent (h1 ! rp) = parent (h ! m)" using rp by (simp add: h1)
      show "left (h1 ! rp) = left (h ! rp)" using rp by (simp add: h1)
      show "right (h1 ! rp) = right (h ! rp)" using rp by (simp add: h1)
    next
      fix a assume "a \<in> set (nodes s')" "a \<noteq> rp"
      then show "same_links h h1 a" by (simp add: h1 same_links_def)
    qed
    with Some show ?thesis by simp
  qed
  have sp: "is_tree (spliced h h1 m q) (if parent (h ! m) = None then q else root t) None
      (replace m s' S)"
    using Th D M len1 out tq subs by (rule is_tree_spliced)
  have heap_eq: "heap (unlink_at t m) = spliced h h1 m q
      \<and> root (unlink_at t m) = (if parent (h ! m) = None then q else root t)"
  proof (cases "parent (h ! m)")
    case None
    then show ?thesis
      by (auto simp: unlink_at_def Let_def spliced_def h_def[symmetric] q_def h1_def
          split: option.split)
  next
    case (Some p)
    from parent_in_tree[OF Th D M] Some have pS: "p \<in> set (nodes S)" "p \<notin> set (nodes (subtree m S))"
      by auto
    have pm: "p \<noteq> m" using pS sub by auto
    have pl: "p < length h" using is_tree_nodes_lt[OF Th pS(1)] .
    have e: "(Some m = left (h ! p)) = (left (h ! p) = Some m)" by auto
    show ?thesis
    proof (cases q)
      case None
      with Some pm show ?thesis
        by (auto simp: unlink_at_def Let_def spliced_def h_def[symmetric] q_def[symmetric] h1_def e)
    next
      case rp: (Some rp)
      with ts' have "rp \<in> set (nodes s')" by (cases s') auto
      with subs pS have prp: "p \<noteq> rp" by auto
      have h1: "h1 = h[rp := (h ! rp)\<lparr>parent := parent (h ! m)\<rparr>]" using rp by (simp add: h1_def)
      show ?thesis
        using Some rp pm prp pl
        by (auto simp: unlink_at_def Let_def spliced_def h_def[symmetric] q_def[symmetric] h1 e
            list_update_swap[of p rp])
    qed
  qed
  have dat: "\<And>a. data (spliced h h1 m q ! a) = data (h ! a)"
  proof -
    fix a
    have "data (spliced h h1 m q ! a) = data (h1 ! a)"
      unfolding spliced_def by (auto split: option.split intro!: nth_upd_same_field)
    then show "data (spliced h h1 m q ! a) = data (h ! a)" by (simp add: dat1)
  qed
  have fields: "size_t (unlink_at t m) = size_t t - 1 \<and> self_balancing (unlink_at t m) = self_balancing t
      \<and> top_t (unlink_at t m) = top_t t \<and> bottom_t (unlink_at t m) = bottom_t t"
    by (auto simp: unlink_at_def Let_def split: option.split)
  have len: "length (spliced h h1 m q) = length h"
    by (simp add: spliced_def len1 split: option.split)
  from nodes_replace_unlink[OF D M sub ns'] sp heap_eq dat fields len show ?thesis
    by (intro exI[of _ "replace m s' S"]) (simp add: h_def)
qed

lemma nodes_eq_Nil [simp]: "(nodes s = []) = (s = Tip)"
  by (cases s) auto

lemma unlinkNode_correct:
  assumes T: "is_tree (heap t) (root t) None S" and D: "distinct (nodes S)" and N: "n \<in> set (nodes S)"
  shows "\<exists>t' S' m. unlinkNode t n = Some (Inr t') \<and> m \<in> set (nodes (subtree n S))
           \<and> is_tree (heap t') (root t') None S'
           \<and> distinct (nodes S') \<and> set (nodes S') = set (nodes S) - {m}
           \<and> int (length (nodes S')) = int (length (nodes S)) - 1
           \<and> length (heap t') = length (heap t)
           \<and> size_t t' = size_t t - 1
           \<and> self_balancing t' = self_balancing t
           \<and> top_t t' = top_t t \<and> bottom_t t' = bottom_t t"
proof -
  define h where "h = heap t"
  from subtree_root[OF N] obtain l r where sub: "subtree n S = Br l n r" by blast
  have Th: "is_tree h (root t) None S" using T by (simp add: h_def)
  have tn: "is_tree h (Some n) (parent (h ! n)) (Br l n r)"
    using subtree_is_tree[OF Th N] sub by simp
  then have tl: "is_tree h (left (h ! n)) (Some n) l" and tr: "is_tree h (right (h ! n)) (Some n) r"
    by simp_all
  have dn: "distinct (nodes (Br l n r))" using distinct_subtree[OF D, of n] sub by simp
  have lN: "(left (h ! n) = None) = (l = Tip)" using tl by (cases l) auto
  have rN: "(right (h ! n) = None) = (r = Tip)" using tr by (cases r) auto
  show ?thesis
  proof (cases "l \<noteq> Tip \<and> r \<noteq> Tip")
    case False
    then have one: "l = Tip \<or> r = Tip" by auto
    have u: "unlinkNode t n = Some (Inr (unlink_at t n))"
      using False lN rN by (auto simp: unlinkNode_def Let_def h_def[symmetric])
    from unlink_at_correct[OF T D N sub one] obtain S' where
      "is_tree (heap (unlink_at t n)) (root (unlink_at t n)) None S'"
      "distinct (nodes S')" "set (nodes S') = set (nodes S) - {n}"
      "int (length (nodes S')) = int (length (nodes S)) - 1"
      "length (heap (unlink_at t n)) = length (heap t)"
      "size_t (unlink_at t n) = size_t t - 1"
      "self_balancing (unlink_at t n) = self_balancing t"
      "top_t (unlink_at t n) = top_t t" "bottom_t (unlink_at t n) = bottom_t t" by blast
    with u sub show ?thesis
      by (intro exI[of _ "unlink_at t n"] exI[of _ S'] exI[of _ n]) simp
  next
    case True
    then obtain rr where rr: "right (h ! n) = Some rr" using rN by auto
    define s where "s = hd (nodes r)"
    have gs: "getSmallestValue h (Some rr) = Some (Some s)"
      using getSmallestValue_is_tree[of h rr "Some n" r] tr rr by (simp add: s_def)
    have su: "successor h n = Some (Some s)" by (simp add: successor_def rr gs)
    have sr: "s \<in> set (nodes r)" using True by (simp add: s_def)
    with dn have sn: "s \<noteq> n" "s \<notin> set (nodes l)" by auto
    define t0 where "t0 = t\<lparr>heap := h[n := (h ! n)\<lparr>data := data (h ! s)\<rparr>]\<rparr>"
    have T0: "is_tree (heap t0) (root t0) None S"
    proof -
      have "is_tree (h[n := (h ! n)\<lparr>data := data (h ! s)\<rparr>]) (root t) None S"
      proof (rule is_tree_frame[OF Th])
        show "length h \<le> length (h[n := (h ! n)\<lparr>data := data (h ! s)\<rparr>])" by simp
      next
        fix a
        show "same_links h (h[n := (h ! n)\<lparr>data := data (h ! s)\<rparr>]) a"
          unfolding same_links_def by (intro conjI nth_upd_same_field) simp_all
      qed
      then show ?thesis by (simp add: t0_def)
    qed
    have sS: "s \<in> set (nodes S)" using sr nodes_subtree_subset[of n S] sub by auto
    from hd_subtree[of r] True dn obtain rs where "subtree s r = Br Tip s rs"
      by (auto simp: s_def)
    then have "subtree s (Br l n r) = Br Tip s rs" using sn by simp
    moreover have "subtree s (subtree n S) = subtree s S"
      using D sr sub by (intro subtree_subtree) simp_all
    ultimately have subs: "subtree s S = Br Tip s rs" using sub by simp
    have u: "unlinkNode t n = Some (Inr (unlink_at t0 s))"
      using True lN rN su by (simp add: unlinkNode_def Let_def h_def[symmetric] t0_def)
    from unlink_at_correct[OF T0 D sS subs] obtain S' where
      "is_tree (heap (unlink_at t0 s)) (root (unlink_at t0 s)) None S'"
      "distinct (nodes S')" "set (nodes S') = set (nodes S) - {s}"
      "int (length (nodes S')) = int (length (nodes S)) - 1"
      "length (heap (unlink_at t0 s)) = length (heap t0)"
      "size_t (unlink_at t0 s) = size_t t0 - 1"
      "self_balancing (unlink_at t0 s) = self_balancing t0"
      "top_t (unlink_at t0 s) = top_t t0" "bottom_t (unlink_at t0 s) = bottom_t t0" by blast
    with u sub sr show ?thesis
      by (intro exI[of _ "unlink_at t0 s"] exI[of _ S'] exI[of _ s]) (simp add: t0_def h_def)
  qed
qed

lemma count_root_inv:
  assumes T: "is_tree (heap t) (root t) None S" and D: "distinct (nodes S)"
    and Z: "size_t t = int (length (nodes S))"
  shows "\<exists>t'. count_root t = Some t' \<and> tree_inv t' S \<and> length (heap t') = length (heap t)
           \<and> root t' = root t \<and> size_t t' = size_t t
           \<and> self_balancing t' = self_balancing t \<and> top_t t' = top_t t \<and> bottom_t t' = bottom_t t"
proof -
  let ?t' = "t\<lparr>heap := set_counters S (heap t)\<rparr>"
  have "count_root t = Some ?t'" using T by (rule count_root_is_tree)
  moreover have "cnt_ok (set_counters S (heap t)) S"
    using D is_tree_nodes_lt[OF T] by (intro cnt_ok_set_counters) auto
  ultimately show ?thesis using T D Z by (intro exI[of _ ?t']) (simp add: tree_inv_def)
qed

lemma remove_correct:
  assumes I: "tree_inv t S"
  shows "(\<exists>t' b S'. remove t k = Some (Inr (t', b)) \<and> tree_inv t' S'
            \<and> size_t t' = (if b then size_t t - 1 else size_t t)
            \<and> self_balancing t' = self_balancing t
            \<and> top_t t' = top_t t \<and> bottom_t t' = bottom_t t)
         \<or> (remove t k = Some (Inl AttributeError) \<and> self_balancing t
              \<and> findEntry t k = Some (root t) \<and> size_t t > 1)"
proof -
  from I have T: "is_tree (heap t) (root t) None S" and D: "distinct (nodes S)"
    and Z: "size_t t = int (length (nodes S))" by (simp_all add: tree_inv_def)
  have fe: "findEntry t k = Some (find_ref (heap t) k S)"
    using findEntry_loop_is_tree[OF T] by (simp add: findEntry_def)
  show ?thesis
  proof (cases "find_ref (heap t) k S")
    case None
    with fe I show ?thesis
      by (intro disjI1 exI[of _ t] exI[of _ False] exI[of _ S]) (simp add: remove_def)
  next
    case (Some n)
    then have N: "n \<in> set (nodes S)" by (rule find_ref_in_nodes)
    from unlinkNode_correct[OF T D N] obtain t1 S1 m where
      u: "unlinkNode t n = Some (Inr t1)" "m \<in> set (nodes (subtree n S))"
      "is_tree (heap t1) (root t1) None S1" "distinct (nodes S1)"
      "set (nodes S1) = set (nodes S) - {m}"
      "int (length (nodes S1)) = int (length (nodes S)) - 1"
      "length (heap t1) = length (heap t)" "size_t t1 = size_t t - 1"
      "self_balancing t1 = self_balancing t" "top_t t1 = top_t t" "bottom_t t1 = bottom_t t"
      by blast
    have Z1: "size_t t1 = int (length (nodes S1))" using u Z by simp
    from count_root_inv[OF u(3,4) Z1] obtain t2 where
      c: "count_root t1 = Some t2" "tree_inv t2 S1" "root t2 = root t1"
      "self_balancing t2 = self_balancing t1" "top_t t2 = top_t t1" "bottom_t t2 = bottom_t t1"
      "size_t t2 = size_t t1"
      by blast
    from c(2) have T2: "is_tree (heap t2) (root t2) None S1" and C2: "cnt_ok (heap t2) S1"
      and Z2: "size_t t2 = int (length (nodes S1))" by (simp_all add: tree_inv_def)
    have rm: "remove t k = bindR (rebalance_from t2 (parent (heap t ! n))) (\<lambda>t3. Some (Inr (t3, True)))"
      using fe Some u(1) c(1) by (simp add: remove_def Let_def bindR_def)
    from parent_in_tree[OF T D N] show ?thesis
    proof
      assume A: "root t = Some n \<and> parent (heap t ! n) = None"
      show ?thesis
      proof (cases "self_balancing t \<and> root t2 \<noteq> None")
        case False
        then have "rebalance_from t2 None = Some (Inr t2)"
          using c(4) u(9) by (auto simp: rebalance_from_def bindR_def)
        with rm A c u Z2 Z1 show ?thesis
          by (intro disjI1 exI[of _ t2] exI[of _ True] exI[of _ S1]) (simp add: bindR_def)
      next
        case True
        then have "rebalance_from t2 None = Some (Inl AttributeError)"
          using c(4) u(9) by (auto simp: rebalance_from_def bindR_def)
        moreover have "size_t t > 1"
        proof -
          from True T2 have "S1 \<noteq> Tip" by (cases S1) auto
          then have "length (nodes S1) > 0" by (cases S1) auto
          with u(6) Z show ?thesis by linarith
        qed
        ultimately show ?thesis using rm A True fe Some by (intro disjI2) (simp add: bindR_def)
      qed
    next
      assume "\<exists>np\<in>set (nodes S). np \<notin> set (nodes (subtree n S)) \<and> parent (heap t ! n) = Some np
          \<and> (left (heap t ! np) = Some n \<or> right (heap t ! np) = Some n)"
      then obtain np where np: "np \<in> set (nodes S)" "np \<notin> set (nodes (subtree n S))"
        "parent (heap t ! n) = Some np" by blast
      with u(2,5) have np1: "np \<in> set (nodes S1)" by auto
      from rebalance_from_correct[OF T2 u(4) C2 np1] obtain t3 S3 where
        r: "rebalance_from t2 (Some np) = Some (Inr t3)" "is_tree (heap t3) (root t3) None S3"
        "nodes S3 = nodes S1" "cnt_ok (heap t3) S3" "same_tree_fields t2 t3" by blast
      have "tree_inv t3 S3" using r u(4) Z2 by (simp add: tree_inv_def same_tree_fields_def)
      with rm np r c u show ?thesis
        by (intro disjI1 exI[of _ t3] exI[of _ True] exI[of _ S3])
          (simp add: bindR_def same_tree_fields_def)
    qed
  qed
qed

lemma cnt_is_tree: "is_tree h p par s \<Longrightarrow> cnt_ok h s \<Longrightarrow> cnt h p = int (length (nodes s))"
  by (cases s) (auto simp: cnt_def)

lemma cnt_ok_nodes:
  "is_tree h p par s \<Longrightarrow> cnt_ok h s \<Longrightarrow> n \<in> set (nodes s) \<Longrightarrow>
   counter (h ! n) = 1 + cnt h (left (h ! n)) + cnt h (right (h ! n))"
proof (induction s arbitrary: p par)
  case Tip
  then show ?case by simp
next
  case (Br l a r)
  from Br.prems(1) have l: "is_tree h (left (h ! a)) (Some a) l"
    and r: "is_tree h (right (h ! a)) (Some a) r" by simp_all
  from Br.prems(2) have c: "counter (h ! a) = int (length (nodes (Br l a r)))"
    "cnt_ok h l" "cnt_ok h r" by simp_all
  from Br.prems(3) consider "n = a" | "n \<in> set (nodes l)" | "n \<in> set (nodes r)" by auto
  then show ?case
  proof cases
    case 1
    with c cnt_is_tree[OF l c(2)] cnt_is_tree[OF r c(3)] show ?thesis by simp
  next
    case 2
    from Br.IH(1)[OF l c(2) 2] show ?thesis .
  next
    case 3
    from Br.IH(2)[OF r c(3) 3] show ?thesis .
  qed
qed

lemma tree_inv_counters: "tree_inv t S \<Longrightarrow> counters_consistent t"
proof -
  assume I: "tree_inv t S"
  then have T: "is_tree (heap t) (root t) None S" and C: "cnt_ok (heap t) S"
    and Z: "size_t t = int (length (nodes S))" by (simp_all add: tree_inv_def)
  have "inOrder (heap t) (root t) [] = Some (nodes S)"
    using inOrder_is_tree[OF T, of "[]"] by simp
  moreover have "list_all (\<lambda>n. counter (heap t ! n)
      = 1 + cnt (heap t) (left (heap t ! n)) + cnt (heap t) (right (heap t ! n))) (nodes S)"
    using cnt_ok_nodes[OF T C] by (simp add: list_all_iff)
  moreover have "size_t t = cnt (heap t) (root t)" using cnt_is_tree[OF T C] Z by simp
  ultimately show ?thesis by (simp add: counters_consistent_def)
qed

lemma run_inv:
  "tree_inv t S \<Longrightarrow> run t ops = Some (Inr t') \<Longrightarrow> \<exists>S'. tree_inv t' S'"
proof (induction ops arbitrary: t S)
  case Nil
  then show ?case by auto
next
  case (Cons x ops)
  show ?case
  proof (cases x)
    case (Add k)
    from add_correct[OF Cons.prems(1), of k] obtain t1 b S1 where
      a: "add t k = Some (Inr (t1, b))" "tree_inv t1 S1" by blast
    with Cons.prems(2) Add have "run t1 ops = Some (Inr t')" by (simp add: bindR_def)
    from Cons.IH[OF a(2) this] show ?thesis .
  next
    case (Remove k)
    from remove_correct[OF Cons.prems(1), of k] show ?thesis
    proof
      assume "\<exists>t1 b S1. remove t k = Some (Inr (t1, b)) \<and> tree_inv t1 S1
            \<and> size_t t1 = (if b then size_t t - 1 else size_t t)
            \<and> self_balancing t1 = self_balancing t
            \<and> top_t t1 = top_t t \<and> bottom_t t1 = bottom_t t"
      then obtain t1 b S1 where a: "remove t k = Some (Inr (t1, b))" "tree_inv t1 S1" by blast
      with Cons.prems(2) Remove have "run t1 ops = Some (Inr t')" by (simp add: bindR_def)
      from Cons.IH[OF a(2) this] show ?thesis .
    next
      assume "remove t k = Some (Inl AttributeError) \<and> self_balancing t
              \<and> findEntry t k = Some (root t) \<and> size_t t > 1"
      with Cons.prems(2) Remove show ?thesis by (simp add: bindR_def)
    qed
  qed
qed

lemma hgt_build_range:
  "start \<le> endi \<Longrightarrow> 2 ^ hgt (build_range ns start endi) \<le> 2 * nat (endi - start + 1)"
proof (induction ns start endi rule: build_range.induct)
  case (1 ns start endi)
  define mid where "mid = start + (endi - start + 1) div 2"
  define n where "n = nat (endi - start + 1)"
  have b: "build_range ns start endi
      = Br (build_range ns start (mid - 1)) (ns ! nat mid) (build_range ns (mid + 1) endi)"
    using "1.prems" by (subst build_range.simps) (simp add: mid_def Let_def)
  have m: "start \<le> mid" "mid \<le> endi" using "1.prems" by (simp_all add: mid_def)
  have n1: "1 \<le> n" using "1.prems" by (simp add: n_def)
  have l: "2 ^ hgt (build_range ns start (mid - 1)) \<le> n"
  proof (cases "start \<le> mid - 1")
    case True
    from "1.IH"(1)[OF _ mid_def True] "1.prems"
    have "2 ^ hgt (build_range ns start (mid - 1)) \<le> 2 * nat (mid - 1 - start + 1)" by simp
    also have "\<dots> \<le> n" using True m by (simp add: n_def mid_def)
    finally show ?thesis .
  next
    case False
    then have "build_range ns start (mid - 1) = Tip" by (subst build_range.simps) simp
    then show ?thesis using n1 by simp
  qed
  have r: "2 ^ hgt (build_range ns (mid + 1) endi) \<le> n"
  proof (cases "mid + 1 \<le> endi")
    case True
    from "1.IH"(2)[OF _ mid_def True] "1.prems"
    have "2 ^ hgt (build_range ns (mid + 1) endi) \<le> 2 * nat (endi - (mid + 1) + 1)" by simp
    also have "\<dots> \<le> n" using True m by (simp add: n_def mid_def)
    finally show ?thesis .
  next
    case False
    then have "build_range ns (mid + 1) endi = Tip" by (subst build_range.simps) simp
    then show ?thesis using n1 by simp
  qed
  have "(2 :: nat) ^ max (hgt (build_range ns start (mid - 1))) (hgt (build_range ns (mid + 1) endi)) \<le> n"
    using l r by (simp add: max_def)
  then show ?case unfolding b n_def by simp
qed

lemma length_nodes_lt_hgt: "length (nodes T) < 2 ^ hgt T"
proof (induction T)
  case Tip
  then show ?case by simp
next
  case (Br l a r)
  have "(2 :: nat) ^ hgt l \<le> 2 ^ max (hgt l) (hgt r)" "(2 :: nat) ^ hgt r \<le> 2 ^ max (hgt l) (hgt r)"
    by (simp_all add: power_increasing)
  with Br have "Suc (length (nodes l) + length (nodes r)) < 2 * 2 ^ max (hgt l) (hgt r)"
    by linarith
  then show ?case by simp
qed

lemma hgt_build_range_min:
  assumes "length (nodes T) = length ns"
  shows "hgt (build_range ns 0 (int (length ns) - 1)) \<le> hgt T"
proof (cases "ns = []")
  case True
  then have "build_range ns 0 (int (length ns) - 1) = Tip" by (subst build_range.simps) simp
  then show ?thesis by simp
next
  case False
  let ?B = "build_range ns 0 (int (length ns) - 1)"
  from False have "0 \<le> int (length ns) - 1" by (cases ns) simp_all
  from hgt_build_range[OF this, of ns] have "(2 :: nat) ^ hgt ?B \<le> 2 * length ns" by simp
  also have "\<dots> < 2 * 2 ^ hgt T" using length_nodes_lt_hgt[of T] assms by simp
  finally have "(2 :: nat) ^ hgt ?B < 2 ^ Suc (hgt T)" by simp
  then have "hgt ?B < Suc (hgt T)" by (simp only: power_strict_increasing_iff one_less_numeral_iff semiring_norm)
  then show ?thesis by simp
qed

lemma build_range_root:
  "ns \<noteq> [] \<Longrightarrow> \<exists>l r. build_range ns 0 (int (length ns) - 1) = Br l (ns ! (length ns div 2)) r"
proof -
  assume "ns \<noteq> []"
  then have "0 \<le> int (length ns) - 1" by (cases ns) simp_all
  then have "build_range ns 0 (int (length ns) - 1)
     = Br (build_range ns 0 (int (length ns) div 2 - 1)) (ns ! nat (int (length ns) div 2))
          (build_range ns (int (length ns) div 2 + 1) (int (length ns) - 1))"
    by (subst build_range.simps) (simp add: Let_def)
  moreover have "nat (int (length ns) div 2) = length ns div 2" by (simp add: nat_div_distrib)
  ultimately show ?thesis by simp
qed

lemma replace_slot:
  assumes "is_tree h p par S" and "is_tree h' p' par (replace u (Br bl q br) S)"
    and "distinct (nodes S)" and "u \<in> set (nodes S)"
  shows "is_tree h' (Some q) (parent (h ! u)) (Br bl q br)
         \<and> (case parent (h ! u) of
              None \<Rightarrow> p = Some u \<and> p' = Some q \<and> par = None
            | Some np \<Rightarrow>
                (p = Some u \<and> p' = Some q \<and> par = Some np)
                \<or> (if left (h ! np) = Some u then left (h' ! np) = Some q
                    else right (h ! np) = Some u \<and> right (h' ! np) = Some q))"
  using assms
proof (induction S arbitrary: p p' par)
  case Tip
  then show ?case by simp
next
  case (Br l a r)
  from Br.prems(1) have l: "is_tree h (left (h ! a)) (Some a) l"
    and r: "is_tree h (right (h ! a)) (Some a) r" and p: "p = Some a" "parent (h ! a) = par"
    by simp_all
  show ?case
  proof (cases "a = u")
    case True
    with Br.prems(2) p show ?thesis by (auto split: option.splits)
  next
    case False
    show ?thesis
    proof (cases "u \<in> set (nodes l)")
      case True
      with False Br.prems(2) have l': "is_tree h' (left (h' ! a)) (Some a) (replace u (Br bl q br) l)"
        by simp
      from Br.prems(3) have dl: "distinct (nodes l)" by simp
      from Br.IH(1)[OF l l' dl True]
      show ?thesis by (auto split: option.splits if_splits)
    next
      case nl: False
      with False Br.prems(4) have ur: "u \<in> set (nodes r)" by auto
      from nl False Br.prems(2)
      have r': "is_tree h' (right (h' ! a)) (Some a) (replace u (Br bl q br) r)" by simp
      from Br.prems(3) have dr: "distinct (nodes r)" by simp
      have nlu: "left (h ! a) \<noteq> Some u"
      proof
        assume "left (h ! a) = Some u"
        with l have "u \<in> set (nodes l)" by (cases l) auto
        with nl show False by simp
      qed
      from Br.IH(2)[OF r r' dr ur] nlu
      show ?thesis by (auto split: option.splits if_splits)
    qed
  qed
qed






section \<open>Runs of the code on concrete trees\<close>

text \<open>
  Claim C4: for every tree and every key, \<^verbatim>\<open>remove(key)\<close> completes without raising;
  in particular removing the root key of a self-balancing tree of any size is error-free.
  The code does otherwise: in the self-balancing tree built by \<^verbatim>\<open>add(2)\<close>,
  \<^verbatim>\<open>add(1)\<close>, the call \<^verbatim>\<open>remove(2)\<close> unlinks the root, keeps \<open>None\<close> (the
  root's parent) as the start of the search, and \<^verbatim>\<open>find_unbalanced(None)\<close> evaluates
  \<^verbatim>\<open>None.parent\<close>: the call ends in \<^verbatim>\<open>AttributeError\<close>. The same call on the
  tree that is not self-balancing returns \<open>True\<close>.
\<close>

theorem remove_root_self_balancing_raises:
  "bindR (adds (init True 0 0) [2, 1 :: int]) (\<lambda>t. remove t 2) = Some (Inl AttributeError)
   \<and> bindR (adds (init False 0 0) [2, 1 :: int])
         (\<lambda>t. bindR (remove t 2) (\<lambda>(t1, b). Some (Inr (b, len t1)))) = Some (Inr (True, 1))"
  by code_simp

text \<open>
  Claim C5: after a successful advance, the iterator's \<^verbatim>\<open>remove()\<close> deletes the
  last-yielded key through the unlink, recount and rebalance path of \<^verbatim>\<open>remove(key)\<close>,
  decreases \<^verbatim>\<open>len()\<close> by one and completes without error. The code does otherwise: on
  the tree built by \<^verbatim>\<open>add(2)\<close>, \<^verbatim>\<open>add(1)\<close>, \<^verbatim>\<open>add(3)\<close>, after one
  \<^verbatim>\<open>next()\<close> (which yields 1), \<^verbatim>\<open>remove()\<close> unlinks the node, lowers the size to
  2 and then raises \<^verbatim>\<open>AttributeError\<close> at line 546, before any counter is recomputed:
  the root keeps the counter 3.
\<close>

theorem iterator_remove_raises:
  "bindR (adds (init False 0 0) [2, 1, 3 :: int]) (\<lambda>t.
     Option.bind (iterator t) (\<lambda>it.
       bindR (it_next t it) (\<lambda>(x, it1).
         (case it_remove t it1 of
            (t1, it2, r) \<Rightarrow> Some (Inr (x, r, len t1, map_option (\<lambda>p. counter (heap t1 ! p)) (root t1)))))))
   = Some (Inr (1, Some (Inl AttributeError), 2, Some 3))"
  by code_simp

text \<open>
  Claim C6: in self-balancing mode, the search for an unbalanced ancestor after
  \<^verbatim>\<open>remove(key)\<close> starts at the original parent of the physically unlinked node, which
  in the two-children case is the former parent of the in-order successor. The code does
  otherwise: it starts at the parent of the node found by key (line 176), and the variable
  \<^verbatim>\<open>startNode\<close> that holds the successor's parent is never read. In the tree built by
  adding 6, 4, 7, 2, 5, 8, 1, 3, the key 4 is in node 1, whose successor is node 4, a child
  of node 1; node 1 is a child of the root, node 0. After \<^verbatim>\<open>remove(4)\<close> node 1 is
  unbalanced and the root is balanced: a search from node 1 returns node 1, and
  \<^verbatim>\<open>remove\<close>, which searched from the root, has rebuilt nothing.
\<close>

theorem remove_searches_from_parent_of_found_node:
  "bindR (adds (init True 0 0) [6, 4, 7, 2, 5, 8, 1, 3 :: int]) (\<lambda>t.
     bindR (remove t 4) (\<lambda>(t1, b).
       Some (Inr (findEntry t 4, successor (heap t) 1, parent (heap t ! 4), parent (heap t ! 1),
                  is_balanced t1 (Some 1), is_balanced t1 (Some 0), find_unbalanced t1 (Some 1)))))
   = Some (Inr (Some (Some 1), Some (Some 4), Some 1, Some 0, False, True, Some (Inr (Some 1))))"
  by code_simp


section \<open>The claims about every tree\<close>



text \<open>
  Claim C3: after every completed add or remove, in either balancing mode, every node n of
  the tree satisfies counter(n) = 1 + counter(n.left) + counter(n.right), an absent child
  counting 0, and the size field of the tree equals the counter of the root (0 when the tree
  is empty). \<open>run\<close> is a sequence of \<^verbatim>\<open>add\<close> and \<^verbatim>\<open>remove\<close> calls on a new
  tree, each of which completes; \<open>counters_consistent\<close> reads the nodes of the tree with
  the code's own \<^verbatim>\<open>__inOrder\<close>.
\<close>

theorem counters_after_add_remove:
  assumes "run (init sb tp bt) ops = Some (Inr t)"
  shows "counters_consistent t"
proof -
  from run_inv[OF tree_inv_init assms] obtain S where "tree_inv t S" by blast
  then show ?thesis by (rule tree_inv_counters)
qed

theorem counters_after_add_remove_witness:
  "run (init True 0 0) [Add 2, Add 1, Add 3, Remove 1, Add 4, Add 5, Remove (5 :: int)]
     = Some (Inr (projr (the (run (init True 0 0) [Add 2, Add 1, Add 3, Remove 1, Add 4, Add 5, Remove (5 :: int)]))))
   \<and> counters_consistent
        (projr (the (run (init True 0 0) [Add 2, Add 1, Add 3, Remove 1, Add 4, Add 5, Remove (5 :: int)])))"
proof -
  have r: "run (init True 0 0) [Add 2, Add 1, Add 3, Remove 1, Add 4, Add 5, Remove (5 :: int)]
     = Some (Inr (projr (the (run (init True 0 0) [Add 2, Add 1, Add 3, Remove 1, Add 4, Add 5, Remove (5 :: int)]))))"
    by code_simp
  from r counters_after_add_remove[OF r] show ?thesis by simp
qed

text \<open>
  Claim C7: for every node \<open>u\<close> of a tree without sharing, \<^verbatim>\<open>rebalance\<close> returns; the
  list \<open>sub\<close> that \<^verbatim>\<open>__inOrder\<close> gives for the subtree below \<open>u\<close> is rebuilt by the
  recursive choice of the ceiling midpoint (the shape \<open>build_range\<close>, whose root is
  \<open>sub ! (length sub div 2)\<close>) over the same nodes: the traversal of the rebuilt subtree
  and of the whole tree give the same node lists as before, the arena keeps its size and every
  node its key, the new subtree root hangs in the slot of the parent of \<open>u\<close> that held
  \<open>u\<close> (or is the root of the tree), its height as \<^verbatim>\<open>getHeight\<close> computes it is the
  least that a binary tree of that many nodes can have, and every counter of the tree is
  1 + left + right.
\<close>

theorem rebalance_rebuilds_subtree:
  assumes "is_tree (heap t) (root t) None S" and "distinct (nodes S)" and "u \<in> set (nodes S)"
  shows "\<exists>t' sub q hq.
           rebalance t (Some u) = Some (Inr t')
         \<and> inOrder (heap t) (Some u) [] = Some sub
         \<and> q = sub ! (length sub div 2)
         \<and> is_tree (heap t') (Some q) (parent (heap t ! u)) (build_range sub 0 (int (length sub) - 1))
         \<and> inOrder (heap t') (Some q) [] = Some sub
         \<and> inOrder (heap t') (root t') [] = inOrder (heap t) (root t) []
         \<and> length (heap t') = length (heap t)
         \<and> (\<forall>a. data (heap t' ! a) = data (heap t ! a))
         \<and> (case parent (heap t ! u) of
              None \<Rightarrow> root t' = Some q
            | Some np \<Rightarrow>
                if left (heap t ! np) = Some u then left (heap t' ! np) = Some q
                else right (heap t' ! np) = Some q)
         \<and> getHeight (heap t') (Some q) = Some hq
         \<and> (\<forall>T. length (nodes T) = length sub \<longrightarrow> hq \<le> int (hgt T) - 1)
         \<and> list_all (\<lambda>n. counter (heap t' ! n)
                          = 1 + cnt (heap t') (left (heap t' ! n)) + cnt (heap t') (right (heap t' ! n)))
                    (nodes S)"
proof -
  define sub where "sub = nodes (subtree u S)"
  define B where "B = build_range sub 0 (int (length sub) - 1)"
  from rebalance_correct[OF assms] obtain t' where
    r: "rebalance t (Some u) = Some (Inr t')"
    and T': "is_tree (heap t') (root t') None (rebalanced u S)"
    and C': "cnt_ok (heap t') (rebalanced u S)"
    and L: "length (heap t') = length (heap t)"
    and Dt: "\<forall>a. data (heap t' ! a) = data (heap t ! a)" by blast
  have S': "rebalanced u S = replace u B S" by (simp add: rebalanced_def B_def sub_def)
  have st: "is_tree (heap t) (Some u) (parent (heap t ! u)) (subtree u S)"
    using assms(1,3) by (rule subtree_is_tree)
  have io: "inOrder (heap t) (Some u) [] = Some sub"
    using inOrder_is_tree[OF st, of "[]"] by (simp add: sub_def)
  from subtree_root[OF assms(3)] have ne: "sub \<noteq> []" by (auto simp: sub_def)
  from build_range_root[OF ne] obtain bl br where Bq: "B = Br bl (sub ! (length sub div 2)) br"
    by (auto simp: B_def)
  define q where "q = sub ! (length sub div 2)"
  from T' have T2: "is_tree (heap t') (root t') None (replace u (Br bl q br) S)"
    by (simp add: S' Bq q_def)
  from replace_slot[OF assms(1) T2 assms(2,3)]
  have Bt: "is_tree (heap t') (Some q) (parent (heap t ! u)) B"
    and slot: "case parent (heap t ! u) of
              None \<Rightarrow> root t' = Some q
            | Some np \<Rightarrow>
                if left (heap t ! np) = Some u then left (heap t' ! np) = Some q
                else right (heap t' ! np) = Some q"
    by (auto simp: Bq q_def split: option.splits if_splits)
  have nB: "nodes B = sub" by (simp add: B_def nodes_build_range map_nth_upto)
  have io': "inOrder (heap t') (Some q) [] = Some sub"
    using inOrder_is_tree[OF Bt, of "[]"] nB by simp
  have nS: "nodes (rebalanced u S) = nodes S" using assms(2,3) by (rule nodes_rebalanced)
  have ioR: "inOrder (heap t') (root t') [] = inOrder (heap t) (root t) []"
    using inOrder_is_tree[OF T', of "[]"] inOrder_is_tree[OF assms(1), of "[]"] nS by simp
  have gh: "getHeight (heap t') (Some q) = Some (int (hgt B) - 1)"
    using Bt by (rule getHeight_is_tree)
  have mn: "\<forall>T. length (nodes T) = length sub \<longrightarrow> int (hgt B) - 1 \<le> int (hgt T) - 1"
  proof (intro allI impI)
    fix T :: shape
    assume "length (nodes T) = length sub"
    from hgt_build_range_min[OF this] show "int (hgt B) - 1 \<le> int (hgt T) - 1"
      by (simp add: B_def)
  qed
  have cn: "list_all (\<lambda>n. counter (heap t' ! n)
                          = 1 + cnt (heap t') (left (heap t' ! n)) + cnt (heap t') (right (heap t' ! n)))
                    (nodes S)"
    unfolding list_all_iff using cnt_ok_nodes[OF T' C'] nS by simp
  show ?thesis
    using r io Bt io' ioR L Dt slot gh mn cn unfolding q_def B_def by blast
qed

theorem rebalance_rebuilds_subtree_witness:
  "\<exists>t. adds (init False 0 0) [1, 2, 3, 4, 5 :: int] = Some (Inr t)
     \<and> is_tree (heap t) (root t) None (Br Tip 0 (Br Tip 1 (Br Tip 2 (Br Tip 3 (Br Tip 4 Tip)))))
     \<and> distinct (nodes (Br Tip 0 (Br Tip 1 (Br Tip 2 (Br Tip 3 (Br Tip 4 Tip))))))
     \<and> 1 \<in> set (nodes (Br Tip 0 (Br Tip 1 (Br Tip 2 (Br Tip 3 (Br Tip 4 Tip))))))
     \<and> (\<exists>t' sub q hq.
           rebalance t (Some 1) = Some (Inr t')
         \<and> inOrder (heap t) (Some 1) [] = Some sub
         \<and> q = sub ! (length sub div 2)
         \<and> is_tree (heap t') (Some q) (parent (heap t ! 1)) (build_range sub 0 (int (length sub) - 1))
         \<and> inOrder (heap t') (Some q) [] = Some sub
         \<and> inOrder (heap t') (root t') [] = inOrder (heap t) (root t) []
         \<and> length (heap t') = length (heap t)
         \<and> (\<forall>a. data (heap t' ! a) = data (heap t ! a))
         \<and> (case parent (heap t ! 1) of
              None \<Rightarrow> root t' = Some q
            | Some np \<Rightarrow>
                if left (heap t ! np) = Some 1 then left (heap t' ! np) = Some q
                else right (heap t' ! np) = Some q)
         \<and> getHeight (heap t') (Some q) = Some hq
         \<and> (\<forall>T. length (nodes T) = length sub \<longrightarrow> hq \<le> int (hgt T) - 1)
         \<and> list_all (\<lambda>n. counter (heap t' ! n)
                          = 1 + cnt (heap t') (left (heap t' ! n)) + cnt (heap t') (right (heap t' ! n)))
                    (nodes (Br Tip 0 (Br Tip 1 (Br Tip 2 (Br Tip 3 (Br Tip 4 Tip)))))))"
proof -
  define t where "t = projr (the (adds (init False 0 0) [1, 2, 3, 4, 5 :: int]))"
  have a: "adds (init False 0 0) [1, 2, 3, 4, 5 :: int] = Some (Inr t)"
    unfolding t_def by code_simp
  have b: "is_tree (heap t) (root t) None (Br Tip 0 (Br Tip 1 (Br Tip 2 (Br Tip 3 (Br Tip 4 Tip)))))"
    unfolding t_def by code_simp
  have c: "distinct (nodes (Br Tip 0 (Br Tip 1 (Br Tip 2 (Br Tip 3 (Br Tip 4 Tip))))))" by simp
  have d: "1 \<in> set (nodes (Br Tip 0 (Br Tip 1 (Br Tip 2 (Br Tip 3 (Br Tip 4 Tip))))))" by simp
  from a b c d rebalance_rebuilds_subtree[OF b c d] show ?thesis by blast
qed




end
